theory Spec2Isabelle
  imports Complex_Main "HOL-Library.AList" "HOL-Library.Multiset"
begin

text \<open>
  A model of the core of the animation gallery: the animation registry with its lazy,
  de-duplicated loading and its metadata sort, the hover-play manager, the canvas pool and
  the canvas engine. The definitions follow the TypeScript sources; the host (promises,
  the DOM canvas, animation frames, the clock) appears as explicit state and as arguments.
  All definitions come first, the proofs follow.
\<close>

section \<open>Animation Registry (src/lib/animations/registry.ts)\<close>

text \<open>
  The registry keeps three maps: \<open>entries\<close> (id to metadata and loader), \<open>loadedCache\<close>
  (id to loaded module) and \<open>loadingPromises\<close> (id to the promise of a load in flight).
  A loader is an opaque asynchronous function; calling it starts a load whose promise is
  settled later by the host. Loader invocations are logged, and the position of an
  invocation in the log is the handle of the promise
  \<open>entry.loader().then(...).catch(...)\<close> that \<open>getById\<close> stores and returns.
  The \<open>.then\<close>/\<open>.catch\<close> callbacks of one load run as one step. A loader returns its
  promise (it does not throw before returning one) and does not call back into the
  registry.
\<close>

datatype AnimationCategory = Particles | Waves | Geometric | Text | Glitch

datatype AnimationDifficulty = Easy | Medium | Hard

text \<open>The fields of \<open>AnimationMetadata\<close> that the registry reads (\<open>author\<close>,
  \<open>thumbnail\<close> and \<open>parameters\<close> are never inspected by it). An optional field that is
  absent is \<open>None\<close>. The field \<open>id\<close> is \<open>meta_id\<close> here.\<close>

record AnimationMetadata =
  meta_id :: string
  name :: string
  description :: string
  category :: AnimationCategory
  difficulty :: AnimationDifficulty
  tags :: "string list"
  createdAt :: "string option"
  updatedAt :: "string option"

text \<open>
  \<open>invoked\<close> logs every loader invocation (the id asked for and the loader called), in
  order; the position in the log is the handle of the promise that invocation produced.
  \<open>settledAs\<close> holds, for a promise that has settled, the value its
  \<open>.then(...).catch(...)\<close> chain resolved to: the module, or \<open>null\<close> (\<open>None\<close>)
  after a rejection. \<open>warnLog\<close> and \<open>errorLog\<close> record the console output.
\<close>

record ('l, 'a, 'e) AnimationRegistry =
  entries :: "string \<rightharpoonup> (AnimationMetadata \<times> 'l)"
  loadedCache :: "string \<rightharpoonup> 'a"
  loadingPromises :: "string \<rightharpoonup> nat"
  invoked :: "(string \<times> 'l) list"
  settledAs :: "nat \<rightharpoonup> 'a option"
  warnLog :: "string list"
  errorLog :: "(string \<times> 'e) list"

definition newRegistry :: "('l, 'a, 'e) AnimationRegistry" where
  "newRegistry = \<lparr> entries = Map.empty, loadedCache = Map.empty, loadingPromises = Map.empty,
     invoked = [], settledAs = Map.empty, warnLog = [], errorLog = [] \<rparr>"

text \<open>What the promise returned by \<open>getById\<close> is: already resolved with a value
  (\<open>null\<close> is \<open>None\<close>), or following the promise of the load with the given handle.\<close>

datatype 'a answer = Now "'a option" | Later nat

definition register :: "('l, 'a, 'e) AnimationRegistry \<Rightarrow> AnimationMetadata \<Rightarrow> 'l \<Rightarrow> ('l, 'a, 'e) AnimationRegistry" where
  "register r metadata loader =
     (let r1 = (if entries r (meta_id metadata) \<noteq> None
                then r\<lparr>warnLog := warnLog r @ [meta_id metadata]\<rparr> else r)
      in r1\<lparr>entries := (entries r1)(meta_id metadata \<mapsto> (metadata, loader))\<rparr>)"

definition getById :: "('l, 'a, 'e) AnimationRegistry \<Rightarrow> string \<Rightarrow> 'a answer \<times> ('l, 'a, 'e) AnimationRegistry" where
  "getById r i =
     (case entries r i of
        None \<Rightarrow> (Now None, r)
      | Some entry \<Rightarrow>
         (case loadedCache r i of
            Some cached \<Rightarrow> (Now (Some cached), r)
          | None \<Rightarrow>
             (case loadingPromises r i of
                Some loading \<Rightarrow> (Later loading, r)
              | None \<Rightarrow>
                 (let loadingPromise = length (invoked r)
                  in (Later loadingPromise,
                      r\<lparr>invoked := invoked r @ [(i, snd entry)],
                        loadingPromises := (loadingPromises r)(i \<mapsto> loadingPromise)\<rparr>)))))"

text \<open>
  The host settles the loader promise of invocation \<open>p\<close>: with \<open>Inr animation\<close> the
  \<open>.then\<close> callback runs, with \<open>Inl error\<close> the \<open>.catch\<close> callback. A promise settles
  once; settling an unknown or already settled promise does nothing. The callbacks close
  over the id the load was started for.
\<close>

definition settle :: "('l, 'a, 'e) AnimationRegistry \<Rightarrow> nat \<Rightarrow> 'e + 'a \<Rightarrow> ('l, 'a, 'e) AnimationRegistry" where
  "settle r p outcome =
     (if p < length (invoked r) \<and> settledAs r p = None then
        (let i = fst (invoked r ! p) in
         case outcome of
           Inr animation \<Rightarrow>
             r\<lparr>loadedCache := (loadedCache r)(i \<mapsto> animation),
               loadingPromises := (loadingPromises r)(i := None),
               settledAs := (settledAs r)(p \<mapsto> Some animation)\<rparr>
         | Inl error \<Rightarrow>
             r\<lparr>errorLog := errorLog r @ [(i, error)],
               loadingPromises := (loadingPromises r)(i := None),
               settledAs := (settledAs r)(p \<mapsto> None)\<rparr>)
      else r)"

definition clearCache :: "('l, 'a, 'e) AnimationRegistry \<Rightarrow> ('l, 'a, 'e) AnimationRegistry" where
  "clearCache r = r\<lparr>loadedCache := Map.empty, loadingPromises := Map.empty\<rparr>"

text \<open>What a caller holding the answer has received so far: \<open>None\<close> while its promise
  is pending, \<open>Some v\<close> once it resolved with \<open>v\<close>.\<close>

definition received :: "('l, 'a, 'e) AnimationRegistry \<Rightarrow> 'a answer \<Rightarrow> 'a option option" where
  "received r ans = (case ans of Now v \<Rightarrow> Some v | Later p \<Rightarrow> settledAs r p)"

text \<open>Loader invocations for an id that have not settled yet, and all loader invocations
  for an id.\<close>

definition inFlight :: "('l, 'a, 'e) AnimationRegistry \<Rightarrow> string \<Rightarrow> nat" where
  "inFlight r i =
     length (filter (\<lambda>p. fst (invoked r ! p) = i \<and> settledAs r p = None) [0..<length (invoked r)])"

definition loaderCalls :: "('l, 'a, 'e) AnimationRegistry \<Rightarrow> string \<Rightarrow> nat" where
  "loaderCalls r i = length (filter (\<lambda>c. fst c = i) (invoked r))"

text \<open>Everything that can happen to a registry: the public calls and the host settling a
  loader promise.\<close>

datatype ('l, 'a, 'e) event =
    Register AnimationMetadata 'l
  | GetById string
  | Settle nat "'e + 'a"
  | ClearCache

fun step :: "('l, 'a, 'e) event \<Rightarrow> ('l, 'a, 'e) AnimationRegistry \<Rightarrow> ('l, 'a, 'e) AnimationRegistry" where
  "step (Register metadata loader) r = register r metadata loader"
| "step (GetById i) r = snd (getById r i)"
| "step (Settle p outcome) r = settle r p outcome"
| "step ClearCache r = clearCache r"

fun run :: "('l, 'a, 'e) event list \<Rightarrow> ('l, 'a, 'e) AnimationRegistry \<Rightarrow> ('l, 'a, 'e) AnimationRegistry" where
  "run [] r = r"
| "run (e # es) r = run es (step e r)"

text \<open>No load is in flight.\<close>

definition idle :: "('l, 'a, 'e) AnimationRegistry \<Rightarrow> bool" where
  "idle r = list_all (\<lambda>p. settledAs r p \<noteq> None) [0..<length (invoked r)]"

text \<open>A run in which \<open>clearCache\<close> is only ever called while no load is in flight.\<close>

fun calm :: "('l, 'a, 'e) event list \<Rightarrow> ('l, 'a, 'e) AnimationRegistry \<Rightarrow> bool" where
  "calm [] r = True"
| "calm (ClearCache # es) r = (idle r \<and> calm es (clearCache r))"
| "calm (e # es) r = calm es (step e r)"

text \<open>Whether an event settles the promise \<open>p\<close>.\<close>

fun settles :: "nat \<Rightarrow> ('l, 'a, 'e) event \<Rightarrow> bool" where
  "settles p (Settle q outcome) = (q = p)"
| "settles p e = False"

subsection \<open>Invariants of the registry\<close>

text \<open>\<open>starts r i\<close>: a \<open>getById(i)\<close> call in state \<open>r\<close> reaches the loader.\<close>

definition starts :: "('l, 'a, 'e) AnimationRegistry \<Rightarrow> string \<Rightarrow> bool" where
  "starts r i \<longleftrightarrow> entries r i \<noteq> None \<and> loadedCache r i = None \<and> loadingPromises r i = None"

text \<open>Every pending load is the one its id's in-flight marker names; every marker names a
  pending load of its id, for a registered id with nothing cached; only promises that exist
  have settled.\<close>

definition pendingTracked :: "('l, 'a, 'e) AnimationRegistry \<Rightarrow> bool" where
  "pendingTracked r \<longleftrightarrow>
     (\<forall>p<length (invoked r). settledAs r p = None \<longrightarrow> loadingPromises r (fst (invoked r ! p)) = Some p)"

definition markersSound :: "('l, 'a, 'e) AnimationRegistry \<Rightarrow> bool" where
  "markersSound r \<longleftrightarrow>
     (\<forall>i p. loadingPromises r i = Some p \<longrightarrow>
        p < length (invoked r) \<and> fst (invoked r ! p) = i \<and> settledAs r p = None \<and>
        loadedCache r i = None \<and> i \<in> dom (entries r))"

definition settledKnown :: "('l, 'a, 'e) AnimationRegistry \<Rightarrow> bool" where
  "settledKnown r \<longleftrightarrow> (\<forall>p. settledAs r p \<noteq> None \<longrightarrow> p < length (invoked r))"

definition Inv :: "('l, 'a, 'e) AnimationRegistry \<Rightarrow> bool" where
  "Inv r \<longleftrightarrow> pendingTracked r \<and> markersSound r \<and> settledKnown r"

text \<open>True in every run, whatever \<open>clearCache\<close> does: settled promises exist and every
  load was started for a registered id.\<close>

definition traced :: "('l, 'a, 'e) AnimationRegistry \<Rightarrow> bool" where
  "traced r \<longleftrightarrow> settledKnown r \<and> (\<forall>p<length (invoked r). fst (invoked r ! p) \<in> dom (entries r))"

text \<open>A small registry for concrete runs.\<close>

definition demoMeta :: AnimationMetadata where
  "demoMeta = \<lparr> meta_id = ''wave'', name = ''Wave'', description = ''A sine wave'',
     category = Waves, difficulty = Easy, tags = [''sine''], createdAt = None, updatedAt = None \<rparr>"

definition demoRegistry :: "(nat, nat, nat) AnimationRegistry" where
  "demoRegistry = register newRegistry demoMeta 5"

subsection \<open>Sorting metadata (\<open>AnimationRegistry.sort\<close>)\<close>

datatype RegistrySortBy = ByName | ByCategory | ByDifficulty | ByCreatedAt | ByUpdatedAt

datatype RegistrySortOrder = Asc | Desc

record RegistrySortOptions =
  sort_by :: RegistrySortBy
  sort_order :: RegistrySortOrder

text \<open>The string a category is in the source.\<close>

fun categoryName :: "AnimationCategory \<Rightarrow> string" where
  "categoryName Particles = ''particles''"
| "categoryName Waves = ''waves''"
| "categoryName Geometric = ''geometric''"
| "categoryName Text = ''text''"
| "categoryName Glitch = ''glitch''"

text \<open>\<open>const difficultyOrder = { easy: 0, medium: 1, hard: 2 }\<close>\<close>

fun difficultyOrder :: "AnimationDifficulty \<Rightarrow> int" where
  "difficultyOrder Easy = 0"
| "difficultyOrder Medium = 1"
| "difficultyOrder Hard = 2"

text \<open>
  Two functions of the host are parameters of the model: \<open>localeCompare\<close>
  (\<open>String.prototype.localeCompare\<close>, whose result depends on the locale) and \<open>getTime\<close>
  (\<open>new Date(s).getTime()\<close>, which is \<open>NaN\<close>, here \<open>None\<close>, for a string that is not a
  date). A number that may be \<open>NaN\<close> is an \<open>int option\<close>; only its sign matters to the sort.

  \<open>if (a.createdAt && b.createdAt)\<close> tests truthiness: an absent field and the empty
  string are both false.
\<close>

definition dateDifference :: "(string \<Rightarrow> int option) \<Rightarrow> string option \<Rightarrow> string option \<Rightarrow> int option" where
  "dateDifference getTime x y =
     (case (x, y) of
        (Some s, Some t) \<Rightarrow>
          if s \<noteq> [] \<and> t \<noteq> [] then
            (case (getTime s, getTime t) of (Some m, Some n) \<Rightarrow> Some (m - n) | _ \<Rightarrow> None)
          else Some 0
      | _ \<Rightarrow> Some 0)"

text \<open>The comparator passed to \<open>sorted.sort\<close>.\<close>

definition compareFn ::
  "(string \<Rightarrow> string \<Rightarrow> int) \<Rightarrow> (string \<Rightarrow> int option) \<Rightarrow> RegistrySortOptions \<Rightarrow>
   AnimationMetadata \<Rightarrow> AnimationMetadata \<Rightarrow> int option" where
  "compareFn localeCompare getTime options a b =
     (let comparison =
        (case sort_by options of
           ByName \<Rightarrow> Some (localeCompare (name a) (name b))
         | ByCategory \<Rightarrow> Some (localeCompare (categoryName (category a)) (categoryName (category b)))
         | ByDifficulty \<Rightarrow> Some (difficultyOrder (difficulty a) - difficultyOrder (difficulty b))
         | ByCreatedAt \<Rightarrow> dateDifference getTime (createdAt a) (createdAt b)
         | ByUpdatedAt \<Rightarrow> dateDifference getTime (updatedAt a) (updatedAt b))
      in if sort_order options = Asc then comparison else map_option uminus comparison)"

text \<open>The value of \<open>comparison\<close> after the \<open>switch\<close>: the comparator is this
  comparison of the key, reversed for a descending sort.\<close>

definition comparison ::
  "(string \<Rightarrow> string \<Rightarrow> int) \<Rightarrow> (string \<Rightarrow> int option) \<Rightarrow> RegistrySortBy \<Rightarrow>
   AnimationMetadata \<Rightarrow> AnimationMetadata \<Rightarrow> int option" where
  "comparison lc gt by a b =
     (case by of
        ByName \<Rightarrow> Some (lc (name a) (name b))
      | ByCategory \<Rightarrow> Some (lc (categoryName (category a)) (categoryName (category b)))
      | ByDifficulty \<Rightarrow> Some (difficultyOrder (difficulty a) - difficultyOrder (difficulty b))
      | ByCreatedAt \<Rightarrow> dateDifference gt (createdAt a) (createdAt b)
      | ByUpdatedAt \<Rightarrow> dateDifference gt (updatedAt a) (updatedAt b))"

text \<open>
  \<open>Array.prototype.sort\<close> belongs to the language, not to the repository, and
  ECMAScript does not fix one algorithm for it. It reads a comparator result of \<open>NaN\<close> as
  \<open>+0\<close> (\<open>sortCompare\<close>). What it promises depends on the comparator: a
  \<^emph>\<open>consistent comparator\<close> for a set of values never returns \<open>NaN\<close> on them, and its
  three relations \<open>< 0\<close>, \<open>= 0\<close> and \<open>> 0\<close> are an equivalence (\<open>= 0\<close>) and two
  transitive orders. For such a comparator the result is a permutation in comparator order,
  and (since ES2019) the sort is stable: elements that compare as equal keep their
  order. For any other comparator the result is a permutation in an order that is left to
  the implementation.

  The sort is therefore a parameter of \<open>registry_sort\<close>, and \<open>conformingSort\<close> is
  what the language promises of it.
\<close>

definition sortCompare :: "('a \<Rightarrow> 'a \<Rightarrow> int option) \<Rightarrow> 'a \<Rightarrow> 'a \<Rightarrow> int" where
  "sortCompare comparefn x y = (case comparefn x y of None \<Rightarrow> 0 | Some v \<Rightarrow> v)"

definition consistentComparator :: "('a \<Rightarrow> 'a \<Rightarrow> int option) \<Rightarrow> 'a set \<Rightarrow> bool" where
  "consistentComparator comparefn S \<longleftrightarrow>
     (\<forall>a\<in>S. \<forall>b\<in>S. comparefn a b \<noteq> None) \<and>
     (\<forall>a\<in>S. sortCompare comparefn a a = 0) \<and>
     (\<forall>a\<in>S. \<forall>b\<in>S. sortCompare comparefn a b = 0 \<longrightarrow> sortCompare comparefn b a = 0) \<and>
     (\<forall>a\<in>S. \<forall>b\<in>S. \<forall>c\<in>S. sortCompare comparefn a b = 0 \<and> sortCompare comparefn b c = 0
         \<longrightarrow> sortCompare comparefn a c = 0) \<and>
     (\<forall>a\<in>S. \<forall>b\<in>S. \<forall>c\<in>S. sortCompare comparefn a b < 0 \<and> sortCompare comparefn b c < 0
         \<longrightarrow> sortCompare comparefn a c < 0) \<and>
     (\<forall>a\<in>S. \<forall>b\<in>S. \<forall>c\<in>S. sortCompare comparefn a b > 0 \<and> sortCompare comparefn b c > 0
         \<longrightarrow> sortCompare comparefn a c > 0)"

definition conformingSort :: "(('a \<Rightarrow> 'a \<Rightarrow> int option) \<Rightarrow> 'a list \<Rightarrow> 'a list) \<Rightarrow> bool" where
  "conformingSort arraySort \<longleftrightarrow>
     (\<forall>comparefn xs.
        mset (arraySort comparefn xs) = mset xs \<and>
        (consistentComparator comparefn (set xs) \<longrightarrow>
           sorted_wrt (\<lambda>a b. sortCompare comparefn a b \<le> 0) (arraySort comparefn xs) \<and>
           (\<forall>P. (\<forall>a\<in>set xs. \<forall>b\<in>set xs. P a \<and> P b \<longrightarrow> sortCompare comparefn a b = 0)
                \<longrightarrow> filter P (arraySort comparefn xs) = filter P xs)))"

text \<open>\<open>sort(animations, options)\<close>, here \<open>registry_sort\<close>: sorts a copy, the argument
  is not changed. \<open>arraySort\<close> is the \<open>Array.prototype.sort\<close> of the host.\<close>

definition registry_sort ::
  "((AnimationMetadata \<Rightarrow> AnimationMetadata \<Rightarrow> int option) \<Rightarrow> AnimationMetadata list \<Rightarrow> AnimationMetadata list) \<Rightarrow>
   (string \<Rightarrow> string \<Rightarrow> int) \<Rightarrow> (string \<Rightarrow> int option) \<Rightarrow> AnimationMetadata list \<Rightarrow>
   RegistrySortOptions \<Rightarrow> AnimationMetadata list" where
  "registry_sort arraySort localeCompare getTime animations options =
     arraySort (compareFn localeCompare getTime options) animations"




text \<open>
  Two sorts to run \<open>registry_sort\<close> with; both are shown to conform. The first is the
  plain stable insertion sort: an element goes before the first element of the sorted rest
  that it does not follow.
\<close>

fun insertSorted :: "('a \<Rightarrow> 'a \<Rightarrow> int) \<Rightarrow> 'a \<Rightarrow> 'a list \<Rightarrow> 'a list" where
  "insertSorted c x [] = [x]"
| "insertSorted c x (y # ys) = (if c x y \<le> 0 then x # y # ys else y # insertSorted c x ys)"

definition insertionSort :: "('a \<Rightarrow> 'a \<Rightarrow> int option) \<Rightarrow> 'a list \<Rightarrow> 'a list" where
  "insertionSort comparefn xs = foldr (insertSorted (sortCompare comparefn)) xs []"






definition sortMixed :: "AnimationMetadata list" where
  "sortMixed =
     [demoMeta\<lparr>name := ''Early'', createdAt := Some ''2023-01-15''\<rparr>,
      demoMeta\<lparr>name := ''Late one'', createdAt := Some ''2024-03-01''\<rparr>,
      demoMeta\<lparr>name := ''Undated''\<rparr>,
      demoMeta\<lparr>name := ''Late two'', createdAt := Some ''2024-03-01''\<rparr>]"

definition demoTime :: "string \<Rightarrow> int option" where
  "demoTime s = (if s = ''2024-03-01'' then Some 1709251200000
                 else if s = ''2023-01-15'' then Some 1673740800000 else None)"

section \<open>Hover-Play Manager (src/lib/utils/hover-play-manager.ts)\<close>

text \<open>
  \<open>activeAnimations\<close> is a JavaScript \<open>Set\<close> and \<open>cleanupFunctions\<close> a \<open>Map\<close>; both
  iterate in insertion order, so they are a list without duplicates and an association
  list. A cleanup callback is an opaque value of type \<open>'c\<close>; calling one appends it to
  \<open>cleanupCalls\<close>, the log of callbacks invoked so far. Callbacks do not call back into the
  manager. \<open>maxConcurrent\<close> is a JavaScript number.
\<close>

record 'c HoverPlayManager =
  activeAnimations :: "string list"
  cleanupFunctions :: "(string \<times> 'c) list"
  maxConcurrent :: real
  cleanupCalls :: "'c list"

definition newHoverPlayManager :: "'c HoverPlayManager" where
  "newHoverPlayManager =
     \<lparr> activeAnimations = [], cleanupFunctions = [], maxConcurrent = 3, cleanupCalls = [] \<rparr>"

text \<open>\<open>Set.prototype.add\<close>: a value already present keeps its place.\<close>

definition set_add :: "'a \<Rightarrow> 'a list \<Rightarrow> 'a list" where
  "set_add x xs = (if x \<in> set xs then xs else xs @ [x])"

definition unregister :: "'c HoverPlayManager \<Rightarrow> string \<Rightarrow> 'c HoverPlayManager" where
  "unregister m animationId =
     (let m1 = (case map_of (cleanupFunctions m) animationId of
                  Some cleanup \<Rightarrow>
                    m\<lparr>cleanupCalls := cleanupCalls m @ [cleanup],
                      cleanupFunctions := AList.delete animationId (cleanupFunctions m)\<rparr>
                | None \<Rightarrow> m)
      in m1\<lparr>activeAnimations := removeAll animationId (activeAnimations m1)\<rparr>)"

text \<open>
  \<open>register\<close>, here \<open>register_hover\<close>:
  \<open>this.activeAnimations.values().next().value\<close> is the first id in insertion
  order, or \<open>undefined\<close> for an empty set; the guard \<open>if (oldestId)\<close> tests JavaScript
  truthiness, which is false for \<open>undefined\<close> and for the empty string.
\<close>

definition register_hover :: "'c HoverPlayManager \<Rightarrow> string \<Rightarrow> 'c \<Rightarrow> bool \<times> 'c HoverPlayManager" where
  "register_hover m animationId cleanup =
     (if animationId \<in> set (activeAnimations m) then (False, m)
      else
        (let m1 = (if real (length (activeAnimations m)) \<ge> maxConcurrent m then
                     (case activeAnimations m of
                        [] \<Rightarrow> m
                      | oldestId # rest \<Rightarrow> if oldestId \<noteq> [] then unregister m oldestId else m)
                   else m)
         in (True, m1\<lparr>activeAnimations := set_add animationId (activeAnimations m1),
                      cleanupFunctions := AList.update animationId cleanup (cleanupFunctions m1)\<rparr>)))"

definition isActive :: "'c HoverPlayManager \<Rightarrow> string \<Rightarrow> bool" where
  "isActive m animationId = (animationId \<in> set (activeAnimations m))"

definition getActiveCount :: "'c HoverPlayManager \<Rightarrow> nat" where
  "getActiveCount m = length (activeAnimations m)"

text \<open>A sequence of \<open>register\<close> calls, each with its id and callback.\<close>

fun registerAll :: "(string \<times> 'c) list \<Rightarrow> 'c HoverPlayManager \<Rightarrow> 'c HoverPlayManager" where
  "registerAll [] m = m"
| "registerAll ((animationId, cleanup) # rs) m = registerAll rs (snd (register_hover m animationId cleanup))"

text \<open>The manager's own bookkeeping is consistent: the active ids are distinct and are
  exactly the ids that have a cleanup callback stored.\<close>

definition hover_ok :: "'c HoverPlayManager \<Rightarrow> bool" where
  "hover_ok m \<longleftrightarrow>
     distinct (activeAnimations m) \<and> distinct (map fst (cleanupFunctions m)) \<and>
     set (map fst (cleanupFunctions m)) = set (activeAnimations m)"

text \<open>The invariant of a manager with the default limit whose active ids are all
  non-empty strings.\<close>

definition hover_inv :: "'c HoverPlayManager \<Rightarrow> bool" where
  "hover_inv m \<longleftrightarrow>
     hover_ok m \<and> maxConcurrent m = 3 \<and> length (activeAnimations m) \<le> 3 \<and>
     [] \<notin> set (activeAnimations m)"

section \<open>Canvas pool (\<open>CanvasPool\<close> in src/lib/canvas/engine.ts)\<close>

text \<open>
  A canvas element, as far as the pool and the engine touch it: its dimensions, the kind of
  rendering context bound to it, and \<open>clearRectCalls\<close>, the number of times
  \<open>clearRect(0, 0, width, height)\<close> was called on its 2D context.

  The DOM binds a canvas to the first kind of context requested from it: \<open>getContext('2d')\<close>
  returns the 2D context of a canvas that has none yet or already has a 2D one, and
  \<open>null\<close> for a canvas bound to another kind (WebGL).
\<close>

datatype context_mode = NoContext | Mode2D | ModeWebGL

record HTMLCanvasElement =
  width :: nat
  height :: nat
  contextMode :: context_mode
  clearRectCalls :: nat

text \<open>\<open>document.createElement('canvas')\<close>: 300 by 150, no context yet.\<close>

definition createCanvas :: HTMLCanvasElement where
  "createCanvas = \<lparr> width = 300, height = 150, contextMode = NoContext, clearRectCalls = 0 \<rparr>"

text \<open>\<open>canvas.getContext('2d')\<close>: whether a context came back, and the canvas afterwards.\<close>

definition getContext2d :: "HTMLCanvasElement \<Rightarrow> bool \<times> HTMLCanvasElement" where
  "getContext2d canvas =
     (case contextMode canvas of
        NoContext \<Rightarrow> (True, canvas\<lparr>contextMode := Mode2D\<rparr>)
      | Mode2D \<Rightarrow> (True, canvas)
      | ModeWebGL \<Rightarrow> (False, canvas))"

text \<open>\<open>canvas.getContext('webgl')\<close>, and the same for \<open>'experimental-webgl'\<close>; the host may
  not support WebGL.\<close>

definition getContextWebgl :: "bool \<Rightarrow> HTMLCanvasElement \<Rightarrow> bool \<times> HTMLCanvasElement" where
  "getContextWebgl webglSupported canvas =
     (case contextMode canvas of
        NoContext \<Rightarrow> if webglSupported then (True, canvas\<lparr>contextMode := ModeWebGL\<rparr>) else (False, canvas)
      | ModeWebGL \<Rightarrow> (True, canvas)
      | Mode2D \<Rightarrow> (False, canvas))"

definition clearRect :: "HTMLCanvasElement \<Rightarrow> HTMLCanvasElement" where
  "clearRect canvas = canvas\<lparr>clearRectCalls := Suc (clearRectCalls canvas)\<rparr>"

text \<open>
  A canvas is an object: the pool holds references to canvases, its callers keep theirs, and
  an assignment to \<open>canvas.width\<close> changes the one object that all of them see. The canvas
  objects that exist are kept in a store, a list indexed by reference;
  \<open>document.createElement('canvas')\<close> appends a new object to it.

  Beside the element's attributes an object carries the state of the output bitmap of its
  2D context: \<open>painted\<close>, whether the bitmap holds anything but transparent black, and
  \<open>ctxDefault\<close>, whether the context's transformation and clipping region are the
  defaults. The drawing buffer of a WebGL context is not modelled: for a canvas bound to
  WebGL the two fields are not used.
\<close>

type_synonym canvas_ref = nat

record CanvasObject =
  element :: HTMLCanvasElement
  painted :: bool
  ctxDefault :: bool

definition newCanvasObject :: CanvasObject where
  "newCanvasObject = \<lparr> element = createCanvas, painted = False, ctxDefault = True \<rparr>"

text \<open>\<open>canvas.getContext('2d')\<close> on an object: a context that is created by the call is
  in its default state.\<close>

definition objectGetContext2d :: "CanvasObject \<Rightarrow> bool \<times> CanvasObject" where
  "objectGetContext2d obj =
     (let (ctx, e) = getContext2d (element obj)
      in (ctx, obj\<lparr>element := e,
                   ctxDefault := (contextMode (element obj) = NoContext \<or> ctxDefault obj)\<rparr>))"

definition objectGetContextWebgl :: "bool \<Rightarrow> CanvasObject \<Rightarrow> bool \<times> CanvasObject" where
  "objectGetContextWebgl webglSupported obj =
     (let (ctx, e) = getContextWebgl webglSupported (element obj) in (ctx, obj\<lparr>element := e\<rparr>))"

text \<open>
  \<open>ctx.clearRect(0, 0, canvas.width, canvas.height)\<close>: the rectangle is taken in the
  context's current coordinates and is subject to its clipping region. With the default
  transformation and no clipping region it is the whole bitmap, which is then blank.
  Otherwise part of the bitmap may be left as it was; what is left is not tracked, and the
  bitmap keeps its \<open>painted\<close> value.
\<close>

definition clearWhole :: "CanvasObject \<Rightarrow> CanvasObject" where
  "clearWhole obj = obj\<lparr>element := clearRect (element obj),
                         painted := (painted obj \<and> \<not> ctxDefault obj)\<rparr>"

text \<open>
  \<open>canvas.width = w\<close> and \<open>canvas.height = h\<close>. By the HTML standard an assignment to
  either attribute of a canvas with a 2D context, also of the value it already has, resets
  the context to its default state and clears the bitmap to transparent black. A canvas
  with no context has no bitmap to reset.
\<close>

definition resetBitmap :: "CanvasObject \<Rightarrow> CanvasObject" where
  "resetBitmap obj =
     (if contextMode (element obj) = Mode2D then obj\<lparr>painted := False, ctxDefault := True\<rparr> else obj)"

definition setWidth :: "CanvasObject \<Rightarrow> nat \<Rightarrow> CanvasObject" where
  "setWidth obj w = resetBitmap (obj\<lparr>element := (element obj)\<lparr>width := w\<rparr>\<rparr>)"

definition setHeight :: "CanvasObject \<Rightarrow> nat \<Rightarrow> CanvasObject" where
  "setHeight obj h = resetBitmap (obj\<lparr>element := (element obj)\<lparr>height := h\<rparr>\<rparr>)"

text \<open>What a caller does to a canvas through its 2D context: it draws, and it may leave a
  transformation or a clipping region set.\<close>

definition paint :: "CanvasObject \<Rightarrow> CanvasObject" where
  "paint obj = (if contextMode (element obj) = Mode2D then obj\<lparr>painted := True\<rparr> else obj)"

definition transform :: "CanvasObject \<Rightarrow> CanvasObject" where
  "transform obj = (if contextMode (element obj) = Mode2D then obj\<lparr>ctxDefault := False\<rparr> else obj)"

text \<open>The pool is an array of canvas references used as a stack: \<open>push\<close> appends,
  \<open>pop\<close> takes the last element. \<open>acquire\<close> is given the dimensions as the canvas
  stores them, as non-negative integers.\<close>

record CanvasPool =
  pool :: "canvas_ref list"
  maxSize :: nat

definition newCanvasPool :: CanvasPool where
  "newCanvasPool = \<lparr> pool = [], maxSize = 10 \<rparr>"

text \<open>The store of canvas objects together with the singleton \<open>canvasPool\<close>.\<close>

record PoolState =
  objects :: "CanvasObject list"
  canvasPool :: CanvasPool

definition newPoolState :: PoolState where
  "newPoolState = \<lparr> objects = [], canvasPool = newCanvasPool \<rparr>"

text \<open>\<open>document.createElement('canvas')\<close>: the reference of the new object, and the
  store with it.\<close>

definition createElement :: "PoolState \<Rightarrow> canvas_ref \<times> PoolState" where
  "createElement st = (length (objects st), st\<lparr>objects := objects st @ [newCanvasObject]\<rparr>)"

text \<open>\<open>acquire(width, height)\<close>: \<open>this.pool.pop()\<close> is \<open>undefined\<close> for an empty
  pool, and then a canvas is created. The two assignments are made to the object popped or
  created.\<close>

definition acquire :: "PoolState \<Rightarrow> nat \<Rightarrow> nat \<Rightarrow> canvas_ref \<times> PoolState" where
  "acquire st w h =
     (let (canvas, st1) =
            (if pool (canvasPool st) = [] then createElement st
             else (last (pool (canvasPool st)),
                   st\<lparr>canvasPool := (canvasPool st)\<lparr>pool := butlast (pool (canvasPool st))\<rparr>\<rparr>));
          st2 = st1\<lparr>objects := (objects st1)[canvas := setWidth (objects st1 ! canvas) w]\<rparr>;
          st3 = st2\<lparr>objects := (objects st2)[canvas := setHeight (objects st2 ! canvas) h]\<rparr>
      in (canvas, st3))"

text \<open>\<open>release(canvas)\<close>: the reference is pushed, whether or not a 2D context came
  back and the bitmap was cleared.\<close>

definition release :: "PoolState \<Rightarrow> canvas_ref \<Rightarrow> PoolState" where
  "release st canvas =
     (if length (pool (canvasPool st)) < maxSize (canvasPool st) then
        (let (ctx, obj1) = objectGetContext2d (objects st ! canvas);
             obj2 = (if ctx then clearWhole obj1 else obj1);
             st1 = st\<lparr>objects := (objects st)[canvas := obj2]\<rparr>
         in st1\<lparr>canvasPool := (canvasPool st1)\<lparr>pool := pool (canvasPool st1) @ [canvas]\<rparr>\<rparr>)
      else st)"

text \<open>\<open>clear()\<close> drops every reference the pool holds.\<close>

definition clear :: "PoolState \<Rightarrow> PoolState" where
  "clear st = st\<lparr>canvasPool := (canvasPool st)\<lparr>pool := []\<rparr>\<rparr>"

text \<open>
  A sequence of calls: the calls on the pool and what its callers do with canvases in
  between. A caller can only name a canvas that exists; a call that names a reference
  outside the store stands for nothing that can happen and leaves the state as it is.
\<close>

datatype pool_call =
    Acquire nat nat
  | Release canvas_ref
  | Clear
  | CreateElement
  | GetContext2d canvas_ref
  | GetContextWebgl bool canvas_ref
  | Paint canvas_ref
  | Transform canvas_ref

definition onObject :: "(CanvasObject \<Rightarrow> CanvasObject) \<Rightarrow> canvas_ref \<Rightarrow> PoolState \<Rightarrow> PoolState" where
  "onObject f canvas st =
     (if canvas < length (objects st) then st\<lparr>objects := (objects st)[canvas := f (objects st ! canvas)]\<rparr>
      else st)"

fun pool_step :: "pool_call \<Rightarrow> PoolState \<Rightarrow> PoolState" where
  "pool_step (Acquire w h) st = snd (acquire st w h)"
| "pool_step (Release canvas) st = (if canvas < length (objects st) then release st canvas else st)"
| "pool_step Clear st = clear st"
| "pool_step CreateElement st = snd (createElement st)"
| "pool_step (GetContext2d canvas) st = onObject (\<lambda>obj. snd (objectGetContext2d obj)) canvas st"
| "pool_step (GetContextWebgl webglSupported canvas) st =
     onObject (\<lambda>obj. snd (objectGetContextWebgl webglSupported obj)) canvas st"
| "pool_step (Paint canvas) st = onObject paint canvas st"
| "pool_step (Transform canvas) st = onObject transform canvas st"

fun pool_run :: "pool_call list \<Rightarrow> PoolState \<Rightarrow> PoolState" where
  "pool_run [] st = st"
| "pool_run (c # cs) st = pool_run cs (pool_step c st)"

text \<open>A caller acquires a canvas, draws on it and releases it.\<close>

definition poolDemo :: "pool_call list" where
  "poolDemo = [Acquire 800 600, GetContext2d 0, Paint 0, Release 0]"

text \<open>The same, but the caller keeps its reference and draws once more after the
  release.\<close>

definition poolLateDraw :: "pool_call list" where
  "poolLateDraw = [Acquire 800 600, GetContext2d 0, Paint 0, Release 0, Paint 0]"

text \<open>A caller fills the canvas and leaves a translation set on the context before it
  releases the canvas.\<close>

definition poolTransformed :: "pool_call list" where
  "poolTransformed = [Acquire 800 600, GetContext2d 0, Paint 0, Transform 0, Release 0]"

text \<open>A canvas is released twice, with another one released in between.\<close>

definition poolTwice :: "pool_call list" where
  "poolTwice = [CreateElement, CreateElement, Release 0, Release 1, Release 0]"

text \<open>A caller creates a canvas, binds it to WebGL and releases it.\<close>

definition poolWebgl :: "pool_call list" where
  "poolWebgl = [CreateElement, GetContextWebgl True 0, Release 0]"

text \<open>The pool holds at most 10 references, each to a canvas that exists.\<close>

definition pool_ok :: "PoolState \<Rightarrow> bool" where
  "pool_ok st \<longleftrightarrow>
     maxSize (canvasPool st) = 10 \<and> length (pool (canvasPool st)) \<le> 10 \<and>
     (\<forall>canvas\<in>set (pool (canvasPool st)). canvas < length (objects st))"

section \<open>Canvas Engine (\<open>CanvasEngine\<close> in src/lib/canvas/engine.ts)\<close>

text \<open>
  JavaScript numbers (timestamps, speed, frame rate) are real numbers in the model:
  rounding of doubles, \<open>NaN\<close> and the infinities are not modelled. The clock
  (\<open>performance.now()\<close>) and the frame timestamps come from the host, so every operation
  that reads the clock takes the reading as an argument \<open>now\<close>; one operation reads one time.

  An animation module is opaque code. Each of its callbacks is a function of the context it
  is given that either returns (\<open>None\<close>) or throws (\<open>Some error\<close>); callbacks do not call
  back into the engine. The engine logs every callback invocation, with the context
  passed, in \<open>calls\<close>.
\<close>

datatype rendering_context = CanvasRenderingContext2D | WebGLRenderingContext

datatype context_type = Type2d | TypeWebgl

datatype param_value = PNumber real | PString string | PBoolean bool

datatype error = Error string

record AnimationContext =
  cx_canvas :: HTMLCanvasElement
  cx_ctx :: rendering_context
  cx_width :: nat
  cx_height :: nat
  cx_time :: real
  cx_deltaTime :: real
  cx_fps :: int
  cx_isPlaying :: bool
  cx_speed :: real
  cx_params :: "string \<rightharpoonup> param_value"

record Animation =
  anim_name :: string
  init :: "AnimationContext \<Rightarrow> error option"
  update :: "AnimationContext \<Rightarrow> error option"
  render :: "AnimationContext \<Rightarrow> error option"
  cleanup :: "(AnimationContext \<Rightarrow> error option) option"

datatype callback = InitCall | UpdateCall | RenderCall | CleanupCall

text \<open>
  The engine's fields, followed by what it has asked of the host: \<open>frameRequests\<close> counts
  the calls of \<open>requestAnimationFrame\<close> (the n-th call returns the id n), \<open>cancelled\<close>
  lists the ids passed to \<open>cancelAnimationFrame\<close>. \<open>resizeObserver\<close> is \<open>None\<close> before
  the observer is created and \<open>Some connected\<close> afterwards.
\<close>

record CanvasEngine =
  canvas :: HTMLCanvasElement
  ctx :: "rendering_context option"
  animation :: "Animation option"
  animationFrameId :: "nat option"
  isPlaying :: bool
  startTime :: real
  lastTime :: real
  deltaTime :: real
  fps :: int
  frameCount :: nat
  fpsUpdateTime :: real
  speed :: real
  params :: "string \<rightharpoonup> param_value"
  resizeObserver :: "bool option"
  isLowEndDevice :: bool
  targetFPS :: nat
  fpsThrottle :: real
  lastFrameTime :: real
  frameRequests :: nat
  cancelled :: "nat list"
  calls :: "(callback \<times> AnimationContext) list"

subsection \<open>Construction\<close>

text \<open>What \<open>detectLowEndDevice\<close> reads from \<open>navigator\<close>: the core count and the device
  memory (absent in browsers without the API) and whether the user agent string matches
  the mobile pattern.\<close>

record Navigator =
  hardwareConcurrency :: "nat option"
  userAgentIsMobile :: bool
  deviceMemory :: "real option"

definition detectLowEndDevice :: "Navigator \<Rightarrow> bool" where
  "detectLowEndDevice navigator =
     (let cores = (case hardwareConcurrency navigator of
                     None \<Rightarrow> 4
                   | Some n \<Rightarrow> if n = 0 then 4 else n)
      in if cores < 4 then True
         else if userAgentIsMobile navigator then True
         else (case deviceMemory navigator of
                 None \<Rightarrow> False
               | Some memory \<Rightarrow> memory \<noteq> 0 \<and> memory < 4))"

text \<open>\<open>window.devicePixelRatio\<close> and the canvas's bounding rectangle.\<close>

record Layout =
  devicePixelRatio :: real
  rectWidth :: real
  rectHeight :: real

text \<open>Assigning to \<open>canvas.width\<close> truncates the number to an integer.\<close>

definition setupCanvas :: "Layout \<Rightarrow> CanvasEngine \<Rightarrow> CanvasEngine" where
  "setupCanvas layout e =
     (let dpr = (if devicePixelRatio layout = 0 then 1 else devicePixelRatio layout)
      in e\<lparr>canvas := (canvas e)\<lparr>width := nat \<lfloor>rectWidth layout * dpr\<rfloor>,
                                height := nat \<lfloor>rectHeight layout * dpr\<rfloor>\<rparr>\<rparr>)"

definition contextTypeName :: "context_type \<Rightarrow> string" where
  "contextTypeName t = (case t of Type2d \<Rightarrow> ''2d'' | TypeWebgl \<Rightarrow> ''webgl'')"

definition newCanvasEngine ::
  "Navigator \<Rightarrow> bool \<Rightarrow> Layout \<Rightarrow> HTMLCanvasElement \<Rightarrow> context_type \<Rightarrow> error + CanvasEngine" where
  "newCanvasEngine navigator webglSupported layout canvas0 contextType =
     (let low = detectLowEndDevice navigator;
          (got, canvas1) =
            (case contextType of
               Type2d \<Rightarrow>
                 (let (ok, c) = getContext2d canvas0
                  in (if ok then Some CanvasRenderingContext2D else None, c))
             | TypeWebgl \<Rightarrow>
                 (let (ok, c) = getContextWebgl webglSupported canvas0;
                      (ok2, c2) = (if ok then (ok, c) else getContextWebgl webglSupported c)
                  in (if ok2 then Some WebGLRenderingContext else None, c2)))
      in case got of
           None \<Rightarrow> Inl (Error (''Failed to get '' @ contextTypeName contextType @ '' context''))
         | Some c \<Rightarrow>
             Inr ((setupCanvas layout
               \<lparr> canvas = canvas1, ctx = Some c, animation = None, animationFrameId = None,
                 isPlaying = False, startTime = 0, lastTime = 0, deltaTime = 0, fps = 0,
                 frameCount = 0, fpsUpdateTime = 0, speed = 1, params = Map.empty,
                 resizeObserver = None, isLowEndDevice = low,
                 targetFPS = (if low then 30 else 60),
                 fpsThrottle = (if low then 1000 / 30 else 0),
                 lastFrameTime = 0, frameRequests = 0, cancelled = [], calls = [] \<rparr>)
               \<lparr>resizeObserver := Some True\<rparr>))"

subsection \<open>Operations\<close>

text \<open>An operation returns the engine as it leaves it and the error it threw, if any:
  fields assigned before a \<open>throw\<close> stay assigned.\<close>

definition andThen ::
  "CanvasEngine \<times> error option \<Rightarrow> (CanvasEngine \<Rightarrow> CanvasEngine \<times> error option) \<Rightarrow>
   CanvasEngine \<times> error option" where
  "andThen r f = (case snd r of None \<Rightarrow> f (fst r) | Some err \<Rightarrow> r)"

text \<open>The object literal that \<open>getContext\<close> returns, for the rendering context \<open>c\<close>.\<close>

definition contextOf :: "rendering_context \<Rightarrow> real \<Rightarrow> CanvasEngine \<Rightarrow> AnimationContext" where
  "contextOf c now e =
     \<lparr> cx_canvas = canvas e, cx_ctx = c, cx_width = width (canvas e),
       cx_height = height (canvas e), cx_time = (now - startTime e) * speed e,
       cx_deltaTime = deltaTime e * speed e, cx_fps = fps e,
       cx_isPlaying = isPlaying e, cx_speed = speed e, cx_params = params e \<rparr>"

definition getContext :: "real \<Rightarrow> CanvasEngine \<Rightarrow> error + AnimationContext" where
  "getContext now e =
     (case ctx e of
        None \<Rightarrow> Inl (Error ''Canvas context not initialized'')
      | Some c \<Rightarrow> Inr (contextOf c now e))"

text \<open>\<open>f(this.getContext())\<close> for a callback \<open>f\<close> of the module: the context is built
  first, which may throw; the call is logged, and may throw.\<close>

definition invoke ::
  "real \<Rightarrow> callback \<Rightarrow> (AnimationContext \<Rightarrow> error option) \<Rightarrow> CanvasEngine \<Rightarrow>
   CanvasEngine \<times> error option" where
  "invoke now k f e =
     (case getContext now e of
        Inl err \<Rightarrow> (e, Some err)
      | Inr context \<Rightarrow> (e\<lparr>calls := calls e @ [(k, context)]\<rparr>, f context))"

text \<open>\<open>this.animationFrameId = requestAnimationFrame(this.animationLoop)\<close>\<close>

definition requestFrame :: "CanvasEngine \<Rightarrow> CanvasEngine" where
  "requestFrame e =
     e\<lparr>frameRequests := Suc (frameRequests e), animationFrameId := Some (Suc (frameRequests e))\<rparr>"

text \<open>\<open>Math.round\<close> rounds to the nearest integer, halves upwards.\<close>

definition mathRound :: "real \<Rightarrow> int" where
  "mathRound x = \<lfloor>x + 1 / 2\<rfloor>"

text \<open>The bookkeeping of a frame that is not dropped (the statements between the early
  returns and the building of the context): the throttle's last accepted timestamp, the
  delta time, and the frame counter with its one-second window.\<close>

definition frameTiming :: "real \<Rightarrow> CanvasEngine \<Rightarrow> CanvasEngine" where
  "frameTiming timestamp e =
     (let e1 = (if fpsThrottle e > 0 then e\<lparr>lastFrameTime := timestamp\<rparr> else e);
          e2 = (if lastTime e1 = 0 then e1\<lparr>lastTime := timestamp\<rparr> else e1);
          e3 = e2\<lparr>deltaTime := timestamp - lastTime e2\<rparr>;
          e4 = e3\<lparr>lastTime := timestamp\<rparr>;
          e5 = e4\<lparr>frameCount := Suc (frameCount e4)\<rparr>
      in if timestamp - fpsUpdateTime e5 \<ge> 1000
         then e5\<lparr>fps := mathRound (real (frameCount e5) * 1000 / (timestamp - fpsUpdateTime e5)),
                frameCount := 0, fpsUpdateTime := timestamp\<rparr>
         else e5)"

text \<open>The frame callback, called by the host with the frame's timestamp.\<close>

definition animationLoop :: "real \<Rightarrow> real \<Rightarrow> CanvasEngine \<Rightarrow> CanvasEngine \<times> error option" where
  "animationLoop timestamp now e =
     (case animation e of
        None \<Rightarrow> (e, None)
      | Some a \<Rightarrow>
          if \<not> isPlaying e then (e, None)
          else if fpsThrottle e > 0 \<and> timestamp - lastFrameTime e < fpsThrottle e
          then (requestFrame e, None)
          else
            (let e1 = frameTiming timestamp e
             in case getContext now e1 of
                  Inl err \<Rightarrow> (e1, Some err)
                | Inr context \<Rightarrow>
                    (let e2 = e1\<lparr>calls := calls e1 @ [(UpdateCall, context)]\<rparr>
                     in case update a context of
                          Some err \<Rightarrow> (e2, Some err)
                        | None \<Rightarrow>
                            (let e3 = e2\<lparr>calls := calls e2 @ [(RenderCall, context)]\<rparr>
                             in case render a context of
                                  Some err \<Rightarrow> (e3, Some err)
                                | None \<Rightarrow> (requestFrame e3, None)))))"

definition pause :: "CanvasEngine \<Rightarrow> CanvasEngine" where
  "pause e =
     (case animationFrameId e of
        None \<Rightarrow> e\<lparr>isPlaying := False\<rparr>
      | Some frameId \<Rightarrow>
          e\<lparr>isPlaying := False, cancelled := cancelled e @ [frameId], animationFrameId := None\<rparr>)"

definition stop :: "CanvasEngine \<Rightarrow> CanvasEngine" where
  "stop e = (pause e)\<lparr>startTime := 0, lastTime := 0, deltaTime := 0\<rparr>"

definition play :: "real \<Rightarrow> CanvasEngine \<Rightarrow> CanvasEngine" where
  "play now e =
     (if isPlaying e then e
      else requestFrame (e\<lparr>isPlaying := True, startTime := now, lastTime := 0, frameCount := 0,
                           fpsUpdateTime := now\<rparr>))"

text \<open>\<open>if (this.animation?.cleanup) this.animation.cleanup(this.getContext())\<close>\<close>

definition cleanupActive :: "real \<Rightarrow> CanvasEngine \<Rightarrow> CanvasEngine \<times> error option" where
  "cleanupActive now e =
     (case animation e of
        None \<Rightarrow> (e, None)
      | Some a \<Rightarrow> (case cleanup a of None \<Rightarrow> (e, None) | Some f \<Rightarrow> invoke now CleanupCall f e))"

definition loadAnimation :: "Animation \<Rightarrow> real \<Rightarrow> CanvasEngine \<Rightarrow> CanvasEngine \<times> error option" where
  "loadAnimation a now e =
     andThen (cleanupActive now (stop e))
       (\<lambda>e1. invoke now InitCall (init a) (e1\<lparr>animation := Some a\<rparr>))"

definition restart :: "real \<Rightarrow> CanvasEngine \<Rightarrow> CanvasEngine \<times> error option" where
  "restart now e =
     (case animation (stop e) of
        None \<Rightarrow> (stop e, None)
      | Some a \<Rightarrow> andThen (invoke now InitCall (init a) (stop e)) (\<lambda>e1. (play now e1, None)))"

definition setSpeed :: "real \<Rightarrow> CanvasEngine \<Rightarrow> CanvasEngine" where
  "setSpeed s e = e\<lparr>speed := max 0.25 (min 2.0 s)\<rparr>"

definition setParameters :: "(string \<rightharpoonup> param_value) \<Rightarrow> CanvasEngine \<Rightarrow> CanvasEngine" where
  "setParameters ps e = e\<lparr>params := params e ++ ps\<rparr>"

definition getFPS :: "CanvasEngine \<Rightarrow> int" where
  "getFPS e = fps e"

definition destroy :: "real \<Rightarrow> CanvasEngine \<Rightarrow> CanvasEngine \<times> error option" where
  "destroy now e =
     andThen (cleanupActive now (stop e))
       (\<lambda>e1. (e1\<lparr>resizeObserver := map_option (\<lambda>connected. False) (resizeObserver e1),
                  animation := None, ctx := None\<rparr>, None))"

text \<open>The callback of the resize observer; the host calls it only while the observer is
  connected.\<close>

definition onResize :: "Layout \<Rightarrow> real \<Rightarrow> CanvasEngine \<Rightarrow> CanvasEngine \<times> error option" where
  "onResize layout now e =
     (if resizeObserver e = Some True then
        (case animation (setupCanvas layout e) of
           None \<Rightarrow> (setupCanvas layout e, None)
         | Some a \<Rightarrow> invoke now InitCall (init a) (setupCanvas layout e))
      else (e, None))"

subsection \<open>Runs of an engine\<close>

text \<open>Frame callbacks one after the other, each with its timestamp and the clock reading
  inside the callback. A callback that throws does not re-arm the loop, so the run ends
  there.\<close>

fun drive :: "(real \<times> real) list \<Rightarrow> CanvasEngine \<Rightarrow> CanvasEngine \<times> error option" where
  "drive [] e = (e, None)"
| "drive ((timestamp, now) # frames) e = andThen (animationLoop timestamp now e) (drive frames)"

text \<open>The public operations and the two callbacks the host makes.\<close>

datatype engine_call =
    LoadAnimation Animation real
  | Play real
  | Pause
  | Stop
  | Restart real
  | SetSpeed real
  | SetParameters "string \<rightharpoonup> param_value"
  | GetFPS
  | Destroy real
  | Frame real real
  | Resize Layout real

fun engine_step :: "engine_call \<Rightarrow> CanvasEngine \<Rightarrow> CanvasEngine \<times> error option" where
  "engine_step (LoadAnimation a now) e = loadAnimation a now e"
| "engine_step (Play now) e = (play now e, None)"
| "engine_step Pause e = (pause e, None)"
| "engine_step Stop e = (stop e, None)"
| "engine_step (Restart now) e = restart now e"
| "engine_step (SetSpeed s) e = (setSpeed s e, None)"
| "engine_step (SetParameters ps) e = (setParameters ps e, None)"
| "engine_step GetFPS e = (e, None)"
| "engine_step (Destroy now) e = destroy now e"
| "engine_step (Frame timestamp now) e = animationLoop timestamp now e"
| "engine_step (Resize layout now) e = onResize layout now e"

text \<open>The engine after a sequence of calls, whose caller carries on after an exception, and
  the errors thrown on the way.\<close>

fun engine_run :: "engine_call list \<Rightarrow> CanvasEngine \<Rightarrow> CanvasEngine" where
  "engine_run [] e = e"
| "engine_run (c # cs) e = engine_run cs (fst (engine_step c e))"

fun thrown :: "engine_call list \<Rightarrow> CanvasEngine \<Rightarrow> error list" where
  "thrown [] e = []"
| "thrown (c # cs) e =
     (case snd (engine_step c e) of None \<Rightarrow> [] | Some err \<Rightarrow> [err]) @ thrown cs (fst (engine_step c e))"

text \<open>A module none of whose callbacks throws.\<close>

definition wellBehaved :: "Animation \<Rightarrow> bool" where
  "wellBehaved a \<longleftrightarrow>
     (\<forall>context. init a context = None \<and> update a context = None \<and> render a context = None \<and>
        (case cleanup a of None \<Rightarrow> True | Some f \<Rightarrow> f context = None))"

fun isLoad :: "engine_call \<Rightarrow> bool" where
  "isLoad (LoadAnimation a now) = True"
| "isLoad c = False"

fun gentle :: "engine_call \<Rightarrow> bool" where
  "gentle (LoadAnimation a now) = wellBehaved a"
| "gentle c = True"

text \<open>No \<open>loadAnimation\<close> after a \<open>destroy\<close>.\<close>

fun noLoadAfterDestroy :: "engine_call list \<Rightarrow> bool" where
  "noLoadAfterDestroy [] = True"
| "noLoadAfterDestroy (Destroy now # cs) = list_all (\<lambda>c. \<not> isLoad c) cs"
| "noLoadAfterDestroy (c # cs) = noLoadAfterDestroy cs"





text \<open>An engine that still has its rendering context and whose active module, if any, is
  well behaved; and an engine with no active module.\<close>

definition intact :: "CanvasEngine \<Rightarrow> bool" where
  "intact e \<longleftrightarrow> ctx e \<noteq> None \<and> (case animation e of None \<Rightarrow> True | Some a \<Rightarrow> wellBehaved a)"

definition vacant :: "CanvasEngine \<Rightarrow> bool" where
  "vacant e \<longleftrightarrow> animation e = None"

subsection \<open>Concrete engines\<close>

text \<open>A desktop and a low-end host, a layout, a module that does nothing, a module whose
  \<open>init\<close> throws, and the two engines that construction yields on these hosts for a new
  canvas.\<close>

definition desktop :: Navigator where
  "desktop = \<lparr> hardwareConcurrency = Some 8, userAgentIsMobile = False, deviceMemory = Some 8 \<rparr>"


definition demoLayout :: Layout where
  "demoLayout = \<lparr> devicePixelRatio = 2, rectWidth = 400, rectHeight = 300 \<rparr>"

definition idleAnimation :: Animation where
  "idleAnimation = \<lparr> anim_name = ''idle'', init = (\<lambda>context. None), update = (\<lambda>context. None),
     render = (\<lambda>context. None), cleanup = Some (\<lambda>context. None) \<rparr>"

definition faultyAnimation :: Animation where
  "faultyAnimation = idleAnimation\<lparr>anim_name := ''faulty'', init := (\<lambda>context. Some (Error ''boom''))\<rparr>"

definition demoEngine :: CanvasEngine where
  "demoEngine =
     \<lparr> canvas = \<lparr> width = 800, height = 600, contextMode = Mode2D, clearRectCalls = 0 \<rparr>,
       ctx = Some CanvasRenderingContext2D, animation = None, animationFrameId = None,
       isPlaying = False, startTime = 0, lastTime = 0, deltaTime = 0, fps = 0,
       frameCount = 0, fpsUpdateTime = 0, speed = 1, params = Map.empty,
       resizeObserver = Some True, isLowEndDevice = False, targetFPS = 60, fpsThrottle = 0,
       lastFrameTime = 0, frameRequests = 0, cancelled = [], calls = [] \<rparr>"



definition demoLoaded :: CanvasEngine where
  "demoLoaded = engine_run [LoadAnimation idleAnimation 0] demoEngine"

text \<open>The desktop engine after playing one frame at 16 ms, and a session of calls that
  ends after \<open>destroy\<close>.\<close>

definition demoPlaying :: CanvasEngine where
  "demoPlaying = engine_run [Play 0, Frame 16 17] demoLoaded"

definition demoSession :: "engine_call list" where
  "demoSession =
     [LoadAnimation idleAnimation 0, Play 1, Frame 16 17, SetSpeed 5, Pause, Restart 20,
      Destroy 30, Play 31, Frame 40 41, Stop, GetFPS, Destroy 50]"

section \<open>Proofs: Animation Registry\<close>

text \<open>C10: calling \<open>getById\<close> for an id that was never registered resolves to null at
  once, invokes no loader and leaves the load cache, the in-flight map and the rest of the
  registry unchanged.\<close>

theorem getById_unregistered:
  "entries r i = None \<Longrightarrow> getById r i = (Now None, r)"
  by (simp add: getById_def)

theorem getById_unregistered_witness:
  "entries (newRegistry :: (nat, nat, nat) AnimationRegistry) ''ghost'' = None
   \<and> getById (newRegistry :: (nat, nat, nat) AnimationRegistry) ''ghost'' = (Now None, newRegistry)"
  using getById_unregistered [of "newRegistry :: (nat, nat, nat) AnimationRegistry" "''ghost''"]
  by (simp add: newRegistry_def)

subsection \<open>What each operation does to the fields\<close>

lemma getById_starts:
  "starts r i \<Longrightarrow> getById r i =
     (Later (length (invoked r)),
      r\<lparr>invoked := invoked r @ [(i, snd (the (entries r i)))],
        loadingPromises := (loadingPromises r)(i \<mapsto> length (invoked r))\<rparr>)"
  by (auto simp: starts_def getById_def Let_def split: option.splits)

lemma getById_idle:
  "\<not> starts r i \<Longrightarrow> snd (getById r i) = r"
  by (auto simp: starts_def getById_def Let_def split: option.splits)

lemma settle_skip:
  "\<not> (p < length (invoked r) \<and> settledAs r p = None) \<Longrightarrow> settle r p out = r"
  by (auto simp add: settle_def)

lemma settle_fields:
  assumes "p < length (invoked r)" "settledAs r p = None"
  shows "invoked (settle r p out) = invoked r"
    and "entries (settle r p out) = entries r"
    and "settledAs (settle r p out) = (settledAs r)(p \<mapsto> (case out of Inl e \<Rightarrow> None | Inr a \<Rightarrow> Some a))"
    and "loadingPromises (settle r p out) = (loadingPromises r)(fst (invoked r ! p) := None)"
    and "loadedCache (settle r p out) =
          (case out of Inl e \<Rightarrow> loadedCache r | Inr a \<Rightarrow> (loadedCache r)(fst (invoked r ! p) \<mapsto> a))"
  using assms by (simp_all add: settle_def Let_def split: sum.splits)

lemma register_fields:
  shows "invoked (register r m l) = invoked r"
    and "entries (register r m l) = (entries r)(meta_id m \<mapsto> (m, l))"
    and "settledAs (register r m l) = settledAs r"
    and "loadingPromises (register r m l) = loadingPromises r"
    and "loadedCache (register r m l) = loadedCache r"
  by (simp_all add: register_def Let_def)

lemma Inv_new: "Inv newRegistry"
  by (simp add: Inv_def pendingTracked_def markersSound_def settledKnown_def newRegistry_def)

lemma Inv_register: "Inv r \<Longrightarrow> Inv (register r m l)"
  unfolding Inv_def pendingTracked_def markersSound_def settledKnown_def register_fields
  by simp

lemma Inv_getById: "Inv r \<Longrightarrow> Inv (snd (getById r i))"
proof (cases "starts r i")
  case False
  assume "Inv r"
  with False show ?thesis by (simp add: getById_idle)
next
  case True
  assume I: "Inv r"
  let ?n = "length (invoked r)"
  let ?r = "r\<lparr>invoked := invoked r @ [(i, snd (the (entries r i)))],
        loadingPromises := (loadingPromises r)(i \<mapsto> ?n)\<rparr>"
  have I1: "\<And>q. q < ?n \<Longrightarrow> settledAs r q = None \<Longrightarrow>
      loadingPromises r (fst (invoked r ! q)) = Some q"
    using I unfolding Inv_def pendingTracked_def by blast
  have I2: "\<And>j q. loadingPromises r j = Some q \<Longrightarrow>
        q < ?n \<and> fst (invoked r ! q) = j \<and>
        settledAs r q = None \<and> loadedCache r j = None \<and> j \<in> dom (entries r)"
    using I unfolding Inv_def markersSound_def by blast
  have I3: "\<And>q. settledAs r q \<noteq> None \<Longrightarrow> q < ?n"
    using I unfolding Inv_def settledKnown_def by blast
  have fresh: "settledAs r ?n = None"
    using I3[of ?n] by (cases "settledAs r ?n") auto
  from True have t: "i \<in> dom (entries r)" "loadedCache r i = None" "loadingPromises r i = None"
    by (auto simp: starts_def)
  have A: "pendingTracked ?r"
    unfolding pendingTracked_def
  proof (intro allI impI)
    fix q
    assume q: "q < length (invoked ?r)" and s: "settledAs ?r q = None"
    show "loadingPromises ?r (fst (invoked ?r ! q)) = Some q"
    proof (cases "q = ?n")
      case True
      then show ?thesis by simp
    next
      case False
      with q have q': "q < ?n" by simp
      from s have s': "settledAs r q = None" by simp
      from I1[OF q' s'] t(3) have "fst (invoked r ! q) \<noteq> i" by auto
      with I1[OF q' s'] q' show ?thesis by (simp add: nth_append)
    qed
  qed
  have B: "markersSound ?r"
    unfolding markersSound_def
  proof (intro allI impI)
    fix j q
    assume l: "loadingPromises ?r j = Some q"
    show "q < length (invoked ?r) \<and> fst (invoked ?r ! q) = j \<and> settledAs ?r q = None \<and>
       loadedCache ?r j = None \<and> j \<in> dom (entries ?r)"
    proof (cases "j = i")
      case True
      with l have "q = ?n" by simp
      with True fresh t show ?thesis by simp
    next
      case False
      with l have "loadingPromises r j = Some q" by simp
      from I2[OF this] show ?thesis by (simp add: nth_append)
    qed
  qed
  have C: "settledKnown ?r"
    unfolding settledKnown_def
  proof (intro allI impI)
    fix q
    assume "settledAs ?r q \<noteq> None"
    then have "settledAs r q \<noteq> None" by simp
    from I3[OF this] show "q < length (invoked ?r)" by simp
  qed
  from A B C show ?thesis by (simp add: getById_starts[OF True] Inv_def)
qed

lemma Inv_settle: "Inv r \<Longrightarrow> Inv (settle r p out)"
proof (cases "p < length (invoked r) \<and> settledAs r p = None")
  case False
  assume "Inv r"
  with settle_skip[OF False] show ?thesis by simp
next
  case True
  assume I: "Inv r"
  from True have a: "p < length (invoked r)" and b: "settledAs r p = None" by simp_all
  note f = settle_fields[OF a b, of out]
  let ?i = "fst (invoked r ! p)"
  have I1: "\<And>q. q < length (invoked r) \<Longrightarrow> settledAs r q = None \<Longrightarrow>
      loadingPromises r (fst (invoked r ! q)) = Some q"
    using I unfolding Inv_def pendingTracked_def by blast
  have I2: "\<And>i q. loadingPromises r i = Some q \<Longrightarrow>
        q < length (invoked r) \<and> fst (invoked r ! q) = i \<and>
        settledAs r q = None \<and> loadedCache r i = None \<and> i \<in> dom (entries r)"
    using I unfolding Inv_def markersSound_def by blast
  have I3: "\<And>q. settledAs r q \<noteq> None \<Longrightarrow> q < length (invoked r)"
    using I unfolding Inv_def settledKnown_def by blast
  have lp: "loadingPromises r ?i = Some p" by (rule I1[OF a b])
  have A: "pendingTracked (settle r p out)"
    unfolding pendingTracked_def
  proof (intro allI impI)
    fix q
    assume "q < length (invoked (settle r p out))" and s: "settledAs (settle r p out) q = None"
    then have q: "q < length (invoked r)" by (simp add: f)
    from s have qp: "q \<noteq> p" and sq: "settledAs r q = None"
      by (auto simp: f split: if_splits)
    have l: "loadingPromises r (fst (invoked r ! q)) = Some q" by (rule I1[OF q sq])
    with lp qp have "fst (invoked r ! q) \<noteq> ?i" by auto
    with l show "loadingPromises (settle r p out) (fst (invoked (settle r p out) ! q)) = Some q"
      by (simp add: f)
  qed
  have B: "markersSound (settle r p out)"
    unfolding markersSound_def
  proof (intro allI impI)
    fix i q
    assume "loadingPromises (settle r p out) i = Some q"
    then have ne: "i \<noteq> ?i" and l: "loadingPromises r i = Some q"
      by (auto simp: f split: if_splits)
    note h = I2[OF l]
    from h ne have qp: "q \<noteq> p" by auto
    from h ne qp show "q < length (invoked (settle r p out)) \<and>
       fst (invoked (settle r p out) ! q) = i \<and>
       settledAs (settle r p out) q = None \<and>
       loadedCache (settle r p out) i = None \<and> i \<in> dom (entries (settle r p out))"
      by (simp add: f split: sum.splits)
  qed
  have C: "settledKnown (settle r p out)"
    unfolding settledKnown_def
  proof (intro allI impI)
    fix q
    assume "settledAs (settle r p out) q \<noteq> None"
    then have "q = p \<or> settledAs r q \<noteq> None" by (auto simp: f split: if_splits)
    with a I3 show "q < length (invoked (settle r p out))" by (auto simp: f)
  qed
  from A B C show ?thesis by (simp add: Inv_def)
qed

lemma Inv_clearCache: "idle r \<Longrightarrow> Inv r \<Longrightarrow> Inv (clearCache r)"
  by (simp add: Inv_def pendingTracked_def markersSound_def settledKnown_def
      clearCache_def idle_def list_all_iff)

lemma Inv_run: "calm evs r \<Longrightarrow> Inv r \<Longrightarrow> Inv (run evs r)"
proof (induction evs arbitrary: r)
  case Nil
  then show ?case by simp
next
  case (Cons e es)
  show ?case
  proof (cases e)
    case (Register m l)
    with Cons show ?thesis by (simp add: Inv_register)
  next
    case (GetById i)
    with Cons show ?thesis by (simp add: Inv_getById)
  next
    case (Settle p out)
    with Cons show ?thesis by (simp add: Inv_settle)
  next
    case ClearCache
    with Cons show ?thesis by (simp add: Inv_clearCache)
  qed
qed

lemma filter_at_most_one:
  assumes "distinct xs" and "\<And>x y. x \<in> set xs \<Longrightarrow> y \<in> set xs \<Longrightarrow> P x \<Longrightarrow> P y \<Longrightarrow> x = y"
  shows "length (filter P xs) \<le> 1"
proof -
  have d: "distinct (filter P xs)" using assms(1) by simp
  have "card (set (filter P xs)) \<le> Suc 0"
  proof (rule card_le_Suc0_iff_eq[THEN iffD2])
    show "finite (set (filter P xs))" by simp
    show "\<forall>a\<in>set (filter P xs). \<forall>b\<in>set (filter P xs). a = b"
      using assms(2) by auto
  qed
  moreover from d have "length (filter P xs) = card (set (filter P xs))"
    by (rule distinct_card[symmetric])
  ultimately show ?thesis by simp
qed

lemma Inv_inFlight: "Inv r \<Longrightarrow> inFlight r i \<le> 1"
  unfolding inFlight_def
proof (rule filter_at_most_one)
  show "distinct [0..<length (invoked r)]" by simp
next
  fix x y
  assume I: "Inv r"
    and "x \<in> set [0..<length (invoked r)]" "y \<in> set [0..<length (invoked r)]"
    and "fst (invoked r ! x) = i \<and> settledAs r x = None"
    and "fst (invoked r ! y) = i \<and> settledAs r y = None"
  then have "loadingPromises r i = Some x" "loadingPromises r i = Some y"
    unfolding Inv_def pendingTracked_def by auto
  then show "x = y" by simp
qed

lemma clearCache_fields:
  shows "invoked (clearCache r) = invoked r"
    and "entries (clearCache r) = entries r"
    and "settledAs (clearCache r) = settledAs r"
  by (simp_all add: clearCache_def)

lemma idleD: "idle r \<Longrightarrow> p < length (invoked r) \<Longrightarrow> settledAs r p \<noteq> None"
  by (auto simp: idle_def list_all_iff)

lemma window_step:
  assumes I: "Inv r" and l: "loadingPromises r i = Some p"
    and ns: "\<not> settles p e" and c: "calm [e] r"
  shows "loadingPromises (step e r) i = Some p \<and> loaderCalls (step e r) i = loaderCalls r i"
proof (cases e)
  case (Register m ld)
  with l show ?thesis by (simp add: register_fields loaderCalls_def)
next
  case (GetById j)
  show ?thesis
  proof (cases "starts r j")
    case False
    with GetById l show ?thesis by (simp add: getById_idle)
  next
    case True
    with l have "j \<noteq> i" by (auto simp: starts_def)
    with GetById l show ?thesis by (simp add: getById_starts[OF True] loaderCalls_def)
  qed
next
  case (Settle q out)
  with ns have qp: "q \<noteq> p" by simp
  show ?thesis
  proof (cases "q < length (invoked r) \<and> settledAs r q = None")
    case False
    with Settle l show ?thesis by (simp add: settle_skip)
  next
    case True
    then have a: "q < length (invoked r)" and b: "settledAs r q = None" by simp_all
    from I a b have "loadingPromises r (fst (invoked r ! q)) = Some q"
      unfolding Inv_def pendingTracked_def by blast
    with l qp have "fst (invoked r ! q) \<noteq> i" by auto
    with Settle l show ?thesis by (simp add: settle_fields[OF a b] loaderCalls_def)
  qed
next
  case ClearCache
  from I l have pp: "p < length (invoked r)" "settledAs r p = None"
    unfolding Inv_def markersSound_def by blast+
  from ClearCache c have "idle r" by simp
  from idleD[OF this pp(1)] pp(2) have False by simp
  then show ?thesis ..
qed

lemma calm_head: "calm (e # es) r \<Longrightarrow> calm [e] r \<and> calm es (step e r)"
  by (cases e) simp_all

lemma window_run:
  assumes "Inv r" and "loadingPromises r i = Some p"
    and "list_all (\<lambda>e. \<not> settles p e) w" and "calm w r"
  shows "loadingPromises (run w r) i = Some p \<and> loaderCalls (run w r) i = loaderCalls r i \<and> Inv (run w r)"
  using assms
proof (induction w arbitrary: r)
  case Nil
  then show ?case by simp
next
  case (Cons e es)
  from Cons.prems(4) have c: "calm [e] r" "calm es (step e r)" by (auto dest: calm_head)
  from Cons.prems(3) have ns: "\<not> settles p e" "list_all (\<lambda>e. \<not> settles p e) es" by simp_all
  from window_step[OF Cons.prems(1,2) ns(1) c(1)]
  have s: "loadingPromises (step e r) i = Some p" "loaderCalls (step e r) i = loaderCalls r i" by simp_all
  from Inv_run[OF c(1) Cons.prems(1)] have I: "Inv (step e r)" by simp
  from Cons.IH[OF I s(1) ns(2) c(2)] s(2) show ?case by simp
qed

lemma getById_joins:
  assumes "Inv r" and "loadingPromises r i = Some p"
  shows "getById r i = (Later p, r)"
proof -
  from assms have "i \<in> dom (entries r)" "loadedCache r i = None"
    unfolding Inv_def markersSound_def by blast+
  with assms(2) show ?thesis by (auto simp: getById_def)
qed

lemma getById_Later:
  assumes "Inv r" and "fst (getById r i) = Later p"
  shows "loadingPromises (snd (getById r i)) i = Some p \<and>
         loaderCalls (snd (getById r i)) i =
           (if loadingPromises r i = None then Suc (loaderCalls r i) else loaderCalls r i)"
proof (cases "starts r i")
  case True
  with assms(2) show ?thesis
    by (simp add: getById_starts[OF True] starts_def loaderCalls_def)
next
  case False
  with assms(2) have "loadingPromises r i = Some p"
    by (auto simp: getById_def starts_def Let_def split: option.splits)
  with getById_joins[OF assms(1) this] show ?thesis by simp
qed

lemma inFlight_pending:
  assumes "Inv r" and "loadingPromises r i = Some p"
  shows "inFlight r i = 1"
proof -
  from assms have "p < length (invoked r)" "fst (invoked r ! p) = i" "settledAs r p = None"
    unfolding Inv_def markersSound_def by blast+
  then have "p \<in> set (filter (\<lambda>p. fst (invoked r ! p) = i \<and> settledAs r p = None) [0..<length (invoked r)])"
    by simp
  then have "0 < inFlight r i"
    unfolding inFlight_def by (metis length_pos_if_in_set)
  with Inv_inFlight[OF assms(1), of i] show ?thesis by simp
qed

lemma traced_step: "traced r \<Longrightarrow> traced (step e r)"
proof (cases e)
  case (Register m l)
  assume "traced r"
  with Register show ?thesis
    by (simp add: traced_def settledKnown_def register_fields)
next
  case (GetById i)
  assume t: "traced r"
  show ?thesis
  proof (cases "starts r i")
    case False
    with GetById t show ?thesis by (simp add: getById_idle)
  next
    case True
    then have "i \<in> dom (entries r)" by (auto simp: starts_def)
    with GetById t show ?thesis
      by (auto simp: getById_starts[OF True] traced_def settledKnown_def nth_append less_Suc_eq)
  qed
next
  case (Settle p out)
  assume t: "traced r"
  show ?thesis
  proof (cases "p < length (invoked r) \<and> settledAs r p = None")
    case False
    with Settle t show ?thesis by (simp add: settle_skip)
  next
    case True
    then have a: "p < length (invoked r)" and b: "settledAs r p = None" by simp_all
    from Settle t a show ?thesis
      by (simp add: traced_def settledKnown_def settle_fields[OF a b])
  qed
next
  case ClearCache
  assume "traced r"
  with ClearCache show ?thesis
    by (simp add: traced_def settledKnown_def clearCache_fields)
qed

lemma traced_run: "traced r \<Longrightarrow> traced (run es r)"
  by (induction es arbitrary: r) (simp_all add: traced_step)

lemma traced_new: "traced newRegistry"
  by (simp add: traced_def settledKnown_def newRegistry_def)

text \<open>C3 (as amended): in any state the registry can reach, when the loader of a pending
  load for id \<open>i\<close> rejects, every caller awaiting that load receives null, the error is
  logged, the load cache is unchanged and the in-flight marker is gone. If no module is
  cached for \<open>i\<close> at that moment, which is so in every run where \<open>clearCache\<close> was only
  called while no load was in flight, the next \<open>getById(i)\<close> invokes the registered loader
  again.\<close>

theorem failed_load_not_cached:
  assumes r: "r = run evs newRegistry"
    and p: "p < length (invoked r)" "settledAs r p = None" "fst (invoked r ! p) = i"
    and nc: "calm evs newRegistry \<or> loadedCache r i = None"
  shows "received (settle r p (Inl e)) (Later p) = Some None
       \<and> errorLog (settle r p (Inl e)) = errorLog r @ [(i, e)]
       \<and> loadedCache (settle r p (Inl e)) = loadedCache r
       \<and> loadingPromises (settle r p (Inl e)) i = None
       \<and> loadedCache r i = None
       \<and> fst (getById (settle r p (Inl e)) i) = Later (length (invoked r))
       \<and> map_option snd (entries r i) = Some (snd (last (invoked (snd (getById (settle r p (Inl e)) i)))))
       \<and> loaderCalls (snd (getById (settle r p (Inl e)) i)) i = Suc (loaderCalls r i)"
proof -
  let ?r = "settle r p (Inl e)"
  note f = settle_fields[OF p(1,2), of "Inl e"]
  from traced_run[OF traced_new, of evs] r have "traced r" by simp
  with p have d: "i \<in> dom (entries r)" by (auto simp: traced_def)
  have c: "loadedCache r i = None"
  proof (cases "calm evs newRegistry")
    case True
    from Inv_run[OF True Inv_new] r have inv: "Inv r" by simp
    then have "loadingPromises r i = Some p"
      using p unfolding Inv_def pendingTracked_def by blast
    with inv show ?thesis unfolding Inv_def markersSound_def by blast
  next
    case False
    with nc show ?thesis by simp
  qed
  have el: "errorLog ?r = errorLog r @ [(i, e)]"
    using p by (simp add: settle_def Let_def)
  have lp: "loadingPromises ?r i = None" using p by (simp add: f)
  have st: "starts ?r i"
    using d c lp by (auto simp: starts_def f)
  from d obtain m l where ml: "entries r i = Some (m, l)" by auto
  show ?thesis
    using el lp ml c by (simp add: getById_starts[OF st] received_def f loaderCalls_def)
qed

text \<open>C1 (as amended): in a run where \<open>clearCache\<close> is only called while no load is in
  flight, every id has at most one loader invocation in flight at any time. When a caller's
  \<open>getById(i)\<close> is answered with the pending promise \<open>p\<close>, then after any further
  events that neither settle \<open>p\<close> nor clear the cache (further \<open>getById\<close> calls for any
  id, registrations, other loads settling) a new \<open>getById(i)\<close> is answered with the same
  promise and changes nothing; the callers together have caused exactly one loader
  invocation for \<open>i\<close> if none was in flight before (and none otherwise); exactly one load
  of \<open>i\<close> is in flight; and once the loader resolves with a module, every caller holding
  \<open>p\<close> has received that same module.\<close>

theorem getById_single_flight:
  assumes c: "calm evs newRegistry"
  shows "inFlight (run evs newRegistry) j \<le> 1 \<and>
    (\<forall>p r1 window.
       getById (run evs newRegistry) i = (Later p, r1) \<longrightarrow>
       calm window r1 \<longrightarrow> list_all (\<lambda>e. \<not> settles p e) window \<longrightarrow>
         getById (run window r1) i = (Later p, run window r1)
       \<and> loaderCalls (run window r1) i =
           (if loadingPromises (run evs newRegistry) i = None
            then Suc (loaderCalls (run evs newRegistry) i) else loaderCalls (run evs newRegistry) i)
       \<and> inFlight (run window r1) i = 1
       \<and> (\<forall>animation. received (settle (run window r1) p (Inr animation)) (Later p) = Some (Some animation)))"
proof (intro conjI allI impI)
  from Inv_run[OF c Inv_new] show "inFlight (run evs newRegistry) j \<le> 1"
    by (rule Inv_inFlight)
next
  fix p r1 window
  let ?r0 = "run evs newRegistry"
  assume g: "getById ?r0 i = (Later p, r1)"
    and cw: "calm window r1" and ns: "list_all (\<lambda>e. \<not> settles p e) window"
  have I0: "Inv ?r0" by (rule Inv_run[OF c Inv_new])
  from g have r1: "r1 = snd (getById ?r0 i)" and a: "fst (getById ?r0 i) = Later p" by simp_all
  from Inv_getById[OF I0, of i] r1 have I1: "Inv r1" by simp
  from getById_Later[OF I0 a] r1
  have l1: "loadingPromises r1 i = Some p"
    and n1: "loaderCalls r1 i = (if loadingPromises ?r0 i = None then Suc (loaderCalls ?r0 i) else loaderCalls ?r0 i)"
    by simp_all
  from window_run[OF I1 l1 ns cw]
  have lN: "loadingPromises (run window r1) i = Some p"
    and nN: "loaderCalls (run window r1) i = loaderCalls r1 i"
    and IN: "Inv (run window r1)" by simp_all
  show "getById (run window r1) i = (Later p, run window r1)"
    by (rule getById_joins[OF IN lN])
  show "loaderCalls (run window r1) i =
      (if loadingPromises ?r0 i = None then Suc (loaderCalls ?r0 i) else loaderCalls ?r0 i)"
    using nN n1 by simp
  show "inFlight (run window r1) i = 1"
    by (rule inFlight_pending[OF IN lN])
  fix animation
  from IN lN have "p < length (invoked (run window r1))" "settledAs (run window r1) p = None"
    unfolding Inv_def markersSound_def by blast+
  then show "received (settle (run window r1) p (Inr animation)) (Later p) = Some (Some animation)"
    by (simp add: received_def settle_fields)
qed

lemma demo_first: "getById demoRegistry ''wave'' = 
   (Later 0, demoRegistry\<lparr>invoked := [(''wave'', 5)], loadingPromises := [''wave'' \<mapsto> 0]\<rparr>)"
  by (simp add: demoRegistry_def demoMeta_def register_def newRegistry_def getById_def Let_def)

theorem getById_single_flight_witness:
  "calm [Register demoMeta 5] (newRegistry :: (nat, nat, nat) AnimationRegistry)
   \<and> fst (getById demoRegistry ''wave'') = Later 0
   \<and> calm [GetById ''wave'', GetById ''wave''] (snd (getById demoRegistry ''wave''))
   \<and> inFlight demoRegistry ''wave'' \<le> 1
   \<and> getById (run [GetById ''wave'', GetById ''wave''] (snd (getById demoRegistry ''wave''))) ''wave'' =
        (Later 0, run [GetById ''wave'', GetById ''wave''] (snd (getById demoRegistry ''wave'')))
   \<and> loaderCalls (run [GetById ''wave'', GetById ''wave''] (snd (getById demoRegistry ''wave''))) ''wave'' = 1
   \<and> inFlight (run [GetById ''wave'', GetById ''wave''] (snd (getById demoRegistry ''wave''))) ''wave'' = 1
   \<and> received (settle (run [GetById ''wave'', GetById ''wave''] (snd (getById demoRegistry ''wave''))) 0 (Inr 42))
        (Later 0) = Some (Some 42)"
proof -
  let ?new = "newRegistry :: (nat, nat, nat) AnimationRegistry"
  let ?w = "[GetById ''wave'', GetById ''wave''] :: (nat, nat, nat) event list"
  let ?r1 = "snd (getById demoRegistry ''wave'')"
  have c: "calm [Register demoMeta 5] ?new" by simp
  have r0: "run [Register demoMeta 5] ?new = demoRegistry" by (simp add: demoRegistry_def)
  have g: "getById demoRegistry ''wave'' = (Later 0, ?r1)" by (simp add: demo_first)
  have cw: "calm ?w ?r1" by simp
  have ns: "list_all (\<lambda>e. \<not> settles 0 e) ?w" by simp
  have z: "loadingPromises demoRegistry ''wave'' = None" "loaderCalls demoRegistry ''wave'' = 0"
    by (simp_all add: demoRegistry_def register_def newRegistry_def Let_def loaderCalls_def)
  note t = getById_single_flight[OF c, of "''wave''" "''wave''", unfolded r0]
  from t have a: "inFlight demoRegistry ''wave'' \<le> 1" by (rule conjunct1)
  from t g cw ns have b: "getById (run ?w ?r1) ''wave'' = (Later 0, run ?w ?r1)
       \<and> loaderCalls (run ?w ?r1) ''wave'' =
           (if loadingPromises demoRegistry ''wave'' = None
            then Suc (loaderCalls demoRegistry ''wave'') else loaderCalls demoRegistry ''wave'')
       \<and> inFlight (run ?w ?r1) ''wave'' = 1
       \<and> (\<forall>animation. received (settle (run ?w ?r1) 0 (Inr animation)) (Later 0) = Some (Some animation))"
    by blast
  have g': "fst (getById demoRegistry ''wave'') = Later 0" by (simp add: demo_first)
  from b z have b': "getById (run ?w ?r1) ''wave'' = (Later 0, run ?w ?r1)
       \<and> loaderCalls (run ?w ?r1) ''wave'' = 1
       \<and> inFlight (run ?w ?r1) ''wave'' = 1
       \<and> received (settle (run ?w ?r1) 0 (Inr 42)) (Later 0) = Some (Some 42)"
    by simp
  from c g' cw a b' show ?thesis by blast
qed

text \<open>C1 as stated fails: \<open>clearCache\<close> drops the in-flight marker, so a second
  \<open>getById\<close> starts a second load while the first is still in flight, and the two
  callers receive different modules.\<close>

theorem clearCache_breaks_single_flight:
  "inFlight (run [Register demoMeta 5, GetById ''wave'', ClearCache, GetById ''wave'']
      (newRegistry :: (nat, nat, nat) AnimationRegistry)) ''wave'' = 2
   \<and> loaderCalls (run [Register demoMeta 5, GetById ''wave'', ClearCache, GetById ''wave'']
      (newRegistry :: (nat, nat, nat) AnimationRegistry)) ''wave'' = 2
   \<and> fst (getById (run [Register demoMeta 5] (newRegistry :: (nat, nat, nat) AnimationRegistry)) ''wave'') = Later 0
   \<and> fst (getById (run [Register demoMeta 5, GetById ''wave'', ClearCache]
      (newRegistry :: (nat, nat, nat) AnimationRegistry)) ''wave'') = Later 1
   \<and> received (run [Register demoMeta 5, GetById ''wave'', ClearCache, GetById ''wave'',
        Settle 0 (Inr 41), Settle 1 (Inr 42)] (newRegistry :: (nat, nat, nat) AnimationRegistry)) (Later 0) = Some (Some 41)
   \<and> received (run [Register demoMeta 5, GetById ''wave'', ClearCache, GetById ''wave'',
        Settle 0 (Inr 41), Settle 1 (Inr 42)] (newRegistry :: (nat, nat, nat) AnimationRegistry)) (Later 1) = Some (Some 42)"
  by (simp add: demoMeta_def register_def newRegistry_def getById_def Let_def clearCache_def
      settle_def received_def inFlight_def loaderCalls_def upt_rec)

text \<open>C3 as stated fails: \<open>clearCache\<close> is called while a first load of the id is in
  flight, a second \<open>getById\<close> starts a second load, and the first load resolves and
  fills the cache. When the second load then rejects, its caller receives null and the
  error is logged, but the next \<open>getById\<close> returns the cached module at once: the
  loader is not invoked again.\<close>

theorem rejected_load_after_clearCache_not_retried:
  "settledAs (run [Register demoMeta 5, GetById ''wave'', ClearCache, GetById ''wave'', Settle 0 (Inr 41)]
      (newRegistry :: (nat, nat, nat) AnimationRegistry)) 1 = None
   \<and> invoked (run [Register demoMeta 5, GetById ''wave'', ClearCache, GetById ''wave'', Settle 0 (Inr 41)]
      (newRegistry :: (nat, nat, nat) AnimationRegistry)) = [(''wave'', 5), (''wave'', 5)]
   \<and> received (settle (run [Register demoMeta 5, GetById ''wave'', ClearCache, GetById ''wave'', Settle 0 (Inr 41)]
      (newRegistry :: (nat, nat, nat) AnimationRegistry)) 1 (Inl 13)) (Later 1) = Some None
   \<and> errorLog (settle (run [Register demoMeta 5, GetById ''wave'', ClearCache, GetById ''wave'', Settle 0 (Inr 41)]
      (newRegistry :: (nat, nat, nat) AnimationRegistry)) 1 (Inl 13)) = [(''wave'', 13)]
   \<and> getById (settle (run [Register demoMeta 5, GetById ''wave'', ClearCache, GetById ''wave'', Settle 0 (Inr 41)]
      (newRegistry :: (nat, nat, nat) AnimationRegistry)) 1 (Inl 13)) ''wave''
     = (Now (Some 41), settle (run [Register demoMeta 5, GetById ''wave'', ClearCache, GetById ''wave'', Settle 0 (Inr 41)]
      (newRegistry :: (nat, nat, nat) AnimationRegistry)) 1 (Inl 13))
   \<and> loaderCalls (snd (getById (settle (run [Register demoMeta 5, GetById ''wave'', ClearCache, GetById ''wave'', Settle 0 (Inr 41)]
      (newRegistry :: (nat, nat, nat) AnimationRegistry)) 1 (Inl 13)) ''wave'')) ''wave'' = 2"
  by (simp add: demoMeta_def register_def newRegistry_def getById_def Let_def clearCache_def
      settle_def received_def loaderCalls_def)

theorem failed_load_not_cached_witness:
  "0 < length (invoked (run [Register demoMeta 5, GetById ''wave''] (newRegistry :: (nat, nat, nat) AnimationRegistry)))
   \<and> settledAs (run [Register demoMeta 5, GetById ''wave''] (newRegistry :: (nat, nat, nat) AnimationRegistry)) 0 = None
   \<and> fst (invoked (run [Register demoMeta 5, GetById ''wave''] (newRegistry :: (nat, nat, nat) AnimationRegistry)) ! 0) = ''wave''
   \<and> calm [Register demoMeta 5, GetById ''wave''] (newRegistry :: (nat, nat, nat) AnimationRegistry)
   \<and> loadedCache (run [Register demoMeta 5, GetById ''wave''] (newRegistry :: (nat, nat, nat) AnimationRegistry)) ''wave'' = None
   \<and> received (settle (run [Register demoMeta 5, GetById ''wave''] (newRegistry :: (nat, nat, nat) AnimationRegistry)) 0 (Inl 13)) (Later 0) = Some None
   \<and> errorLog (settle (run [Register demoMeta 5, GetById ''wave''] (newRegistry :: (nat, nat, nat) AnimationRegistry)) 0 (Inl 13)) = [(''wave'', 13)]
   \<and> fst (getById (settle (run [Register demoMeta 5, GetById ''wave''] (newRegistry :: (nat, nat, nat) AnimationRegistry)) 0 (Inl 13)) ''wave'') = Later 1
   \<and> loaderCalls (snd (getById (settle (run [Register demoMeta 5, GetById ''wave''] (newRegistry :: (nat, nat, nat) AnimationRegistry)) 0 (Inl 13)) ''wave'')) ''wave'' = 2"
proof -
  let ?r = "run [Register demoMeta 5, GetById ''wave''] (newRegistry :: (nat, nat, nat) AnimationRegistry)"
  have r: "?r = demoRegistry\<lparr>invoked := [(''wave'', 5)], loadingPromises := [''wave'' \<mapsto> 0]\<rparr>"
    by (simp add: demo_first demoRegistry_def[symmetric])
  have h: "0 < length (invoked ?r)" "settledAs ?r 0 = None" "fst (invoked ?r ! 0) = ''wave''"
    "errorLog ?r = []" "loaderCalls ?r ''wave'' = 1" "length (invoked ?r) = 1"
    unfolding r by (simp_all add: demoRegistry_def register_def newRegistry_def Let_def loaderCalls_def)
  have c: "calm [Register demoMeta 5, GetById ''wave''] (newRegistry :: (nat, nat, nat) AnimationRegistry)"
    by simp
  from c have c': "calm [Register demoMeta 5, GetById ''wave''] (newRegistry :: (nat, nat, nat) AnimationRegistry)
      \<or> loadedCache ?r ''wave'' = None" by simp
  from failed_load_not_cached[OF refl h(1,2,3) c', of 13] h c show ?thesis by simp
qed
section \<open>Proofs: sorting metadata\<close>

subsection \<open>Consistent comparators\<close>

lemma consistent_refl: "consistentComparator f S \<Longrightarrow> a \<in> S \<Longrightarrow> sortCompare f a a = 0"
  unfolding consistentComparator_def by blast

lemma consistent_sym:
  "consistentComparator f S \<Longrightarrow> a \<in> S \<Longrightarrow> b \<in> S \<Longrightarrow> sortCompare f a b = 0 \<Longrightarrow> sortCompare f b a = 0"
  unfolding consistentComparator_def by blast

lemma consistent_eq_trans:
  "consistentComparator f S \<Longrightarrow> a \<in> S \<Longrightarrow> b \<in> S \<Longrightarrow> d \<in> S \<Longrightarrow>
   sortCompare f a b = 0 \<Longrightarrow> sortCompare f b d = 0 \<Longrightarrow> sortCompare f a d = 0"
  unfolding consistentComparator_def by blast

lemma consistent_less_trans:
  "consistentComparator f S \<Longrightarrow> a \<in> S \<Longrightarrow> b \<in> S \<Longrightarrow> d \<in> S \<Longrightarrow>
   sortCompare f a b < 0 \<Longrightarrow> sortCompare f b d < 0 \<Longrightarrow> sortCompare f a d < 0"
  unfolding consistentComparator_def by blast

lemma consistent_greater_trans:
  "consistentComparator f S \<Longrightarrow> a \<in> S \<Longrightarrow> b \<in> S \<Longrightarrow> d \<in> S \<Longrightarrow>
   sortCompare f a b > 0 \<Longrightarrow> sortCompare f b d > 0 \<Longrightarrow> sortCompare f a d > 0"
  unfolding consistentComparator_def by blast

lemma consistent_flip:
  assumes c: "consistentComparator f S" and a: "a \<in> S" and b: "b \<in> S"
    and l: "sortCompare f a b < 0"
  shows "sortCompare f b a > 0"
proof (rule ccontr)
  assume "\<not> sortCompare f b a > 0"
  then consider "sortCompare f b a = 0" | "sortCompare f b a < 0" by linarith
  then show False
  proof cases
    case 1
    from consistent_sym[OF c b a 1] l show False by simp
  next
    case 2
    from consistent_less_trans[OF c a b a l 2] consistent_refl[OF c a] show False by simp
  qed
qed

lemma consistent_flip':
  assumes c: "consistentComparator f S" and a: "a \<in> S" and b: "b \<in> S"
    and l: "sortCompare f a b > 0"
  shows "sortCompare f b a < 0"
proof (rule ccontr)
  assume "\<not> sortCompare f b a < 0"
  then consider "sortCompare f b a = 0" | "sortCompare f b a > 0" by linarith
  then show False
  proof cases
    case 1
    from consistent_sym[OF c b a 1] l show False by simp
  next
    case 2
    from consistent_greater_trans[OF c a b a l 2] consistent_refl[OF c a] show False by simp
  qed
qed

lemma consistent_total:
  assumes c: "consistentComparator f S" and a: "a \<in> S" and b: "b \<in> S"
  shows "sortCompare f a b \<le> 0 \<or> sortCompare f b a \<le> 0"
  using consistent_flip'[OF c a b] by fastforce

lemma consistent_less_eq:
  assumes c: "consistentComparator f S" and a: "a \<in> S" and b: "b \<in> S" and d: "d \<in> S"
    and l: "sortCompare f a b < 0" and e: "sortCompare f b d = 0"
  shows "sortCompare f a d < 0"
proof (rule ccontr)
  assume "\<not> sortCompare f a d < 0"
  then consider "sortCompare f a d = 0" | "sortCompare f a d > 0" by linarith
  then show False
  proof cases
    case 1
    from consistent_eq_trans[OF c a d b 1 consistent_sym[OF c b d e]] l show False by simp
  next
    case 2
    from consistent_greater_trans[OF c b a d consistent_flip[OF c a b l] 2] e show False by simp
  qed
qed

lemma consistent_eq_less:
  assumes c: "consistentComparator f S" and a: "a \<in> S" and b: "b \<in> S" and d: "d \<in> S"
    and e: "sortCompare f a b = 0" and l: "sortCompare f b d < 0"
  shows "sortCompare f a d < 0"
proof (rule ccontr)
  assume "\<not> sortCompare f a d < 0"
  then consider "sortCompare f a d = 0" | "sortCompare f a d > 0" by linarith
  then show False
  proof cases
    case 1
    from consistent_eq_trans[OF c b a d consistent_sym[OF c a b e] 1] l show False by simp
  next
    case 2
    from consistent_greater_trans[OF c a d b 2 consistent_flip[OF c b d l]] e show False by simp
  qed
qed

lemma consistent_le_trans:
  assumes c: "consistentComparator f S" and a: "a \<in> S" and b: "b \<in> S" and d: "d \<in> S"
    and l1: "sortCompare f a b \<le> 0" and l2: "sortCompare f b d \<le> 0"
  shows "sortCompare f a d \<le> 0"
proof -
  consider "sortCompare f a b < 0" "sortCompare f b d < 0"
    | "sortCompare f a b < 0" "sortCompare f b d = 0"
    | "sortCompare f a b = 0" "sortCompare f b d < 0"
    | "sortCompare f a b = 0" "sortCompare f b d = 0"
    using l1 l2 by linarith
  then show ?thesis
  proof cases
    case 1
    from consistent_less_trans[OF c a b d 1] show ?thesis by simp
  next
    case 2
    from consistent_less_eq[OF c a b d 2] show ?thesis by simp
  next
    case 3
    from consistent_eq_less[OF c a b d 3] show ?thesis by simp
  next
    case 4
    from consistent_eq_trans[OF c a b d 4] show ?thesis by simp
  qed
qed

lemma consistent_subset: "consistentComparator f S \<Longrightarrow> T \<subseteq> S \<Longrightarrow> consistentComparator f T"
  unfolding consistentComparator_def by (intro conjI ballI impI; blast)















subsection \<open>What a conforming sort returns\<close>





subsection \<open>The insertion sort conforms\<close>

lemma set_insertSorted: "set (insertSorted c x ys) = insert x (set ys)"
  by (induction ys) auto

lemma mset_insertSorted: "mset (insertSorted c x ys) = add_mset x (mset ys)"
  by (induction ys) auto

lemma mset_insertionSort: "mset (insertionSort f xs) = mset xs"
  by (induction xs) (simp_all add: insertionSort_def mset_insertSorted)

lemma set_insertionSort: "set (insertionSort f xs) = set xs"
  by (metis mset_insertionSort mset_eq_setD)

lemma filter_insertSorted:
  "(\<And>y. y \<in> set ys \<Longrightarrow> P x \<Longrightarrow> P y \<Longrightarrow> c x y \<le> 0) \<Longrightarrow>
   filter P (insertSorted c x ys) = (if P x then x # filter P ys else filter P ys)"
  by (induction ys) auto

lemma filter_insertionSort:
  "(\<And>x y. x \<in> set xs \<Longrightarrow> y \<in> set xs \<Longrightarrow> P x \<Longrightarrow> P y \<Longrightarrow> sortCompare f x y \<le> 0) \<Longrightarrow>
   filter P (insertionSort f xs) = filter P xs"
proof (induction xs)
  case Nil
  then show ?case by (simp add: insertionSort_def)
next
  case (Cons x xs)
  have ih: "filter P (insertionSort f xs) = filter P xs"
    by (rule Cons.IH) (simp add: Cons.prems)
  have "filter P (insertSorted (sortCompare f) x (insertionSort f xs)) =
        (if P x then x # filter P (insertionSort f xs) else filter P (insertionSort f xs))"
    by (rule filter_insertSorted) (simp add: set_insertionSort Cons.prems)
  with ih show ?case by (simp add: insertionSort_def)
qed

lemma sorted_insertSorted:
  assumes c: "consistentComparator f S" and x: "x \<in> S"
  shows "set ys \<subseteq> S \<Longrightarrow> sorted_wrt (\<lambda>a b. sortCompare f a b \<le> 0) ys \<Longrightarrow>
         sorted_wrt (\<lambda>a b. sortCompare f a b \<le> 0) (insertSorted (sortCompare f) x ys)"
proof (induction ys)
  case Nil
  then show ?case by simp
next
  case (Cons y ys)
  then have y: "y \<in> S" and ys: "set ys \<subseteq> S" by simp_all
  show ?case
  proof (cases "sortCompare f x y \<le> 0")
    case True
    have "sortCompare f x z \<le> 0" if "z \<in> set ys" for z
    proof -
      from that ys have z: "z \<in> S" by blast
      from that Cons.prems(2) have "sortCompare f y z \<le> 0" by simp
      from consistent_le_trans[OF c x y z True this] show ?thesis .
    qed
    with True Cons.prems(2) show ?thesis by simp
  next
    case False
    with consistent_total[OF c x y] have "sortCompare f y x \<le> 0" by simp
    with False Cons.prems(2) Cons.IH[OF ys] show ?thesis
      by (auto simp: set_insertSorted)
  qed
qed

lemma sorted_insertionSort:
  assumes c: "consistentComparator f S"
  shows "set xs \<subseteq> S \<Longrightarrow> sorted_wrt (\<lambda>a b. sortCompare f a b \<le> 0) (insertionSort f xs)"
proof (induction xs)
  case Nil
  then show ?case by (simp add: insertionSort_def)
next
  case (Cons x xs)
  then have x: "x \<in> S" and xs: "set xs \<subseteq> S" by simp_all
  have "sorted_wrt (\<lambda>a b. sortCompare f a b \<le> 0)
          (insertSorted (sortCompare f) x (insertionSort f xs))"
    by (rule sorted_insertSorted[OF c x]) (simp_all add: set_insertionSort xs Cons.IH)
  then show ?case by (simp add: insertionSort_def)
qed

lemma insertionSort_conforms: "conformingSort insertionSort"
  unfolding conformingSort_def
proof (intro allI conjI impI)
  fix f :: "'a \<Rightarrow> 'a \<Rightarrow> int option" and xs
  show "mset (insertionSort f xs) = mset xs" by (rule mset_insertionSort)
  assume c: "consistentComparator f (set xs)"
  from sorted_insertionSort[OF c] show "sorted_wrt (\<lambda>a b. sortCompare f a b \<le> 0) (insertionSort f xs)"
    by simp
  fix P
  assume "\<forall>a\<in>set xs. \<forall>b\<in>set xs. P a \<and> P b \<longrightarrow> sortCompare f a b = 0"
  then show "filter P (insertionSort f xs) = filter P xs"
    by (intro filter_insertionSort) simp
qed

subsection \<open>The sort of V8 conforms\<close>




















text \<open>The insertion sort conforms as well and returns another order for the same list,
  in which \<open>Early\<close> comes before \<open>Late two\<close> although the sort is descending: with
  an inconsistent comparator the order is the implementation's.\<close>

lemma mixed_dates_order_is_left_open:
  "registry_sort insertionSort (\<lambda>s t. 0) demoTime sortMixed \<lparr>sort_by = ByCreatedAt, sort_order = Desc\<rparr>
     = [demoMeta\<lparr>name := ''Late one'', createdAt := Some ''2024-03-01''\<rparr>,
        demoMeta\<lparr>name := ''Early'', createdAt := Some ''2023-01-15''\<rparr>,
        demoMeta\<lparr>name := ''Undated''\<rparr>,
        demoMeta\<lparr>name := ''Late two'', createdAt := Some ''2024-03-01''\<rparr>]"
  by (simp add: registry_sort_def insertionSort_def sortMixed_def compareFn_def sortCompare_def
      dateDifference_def demoTime_def demoMeta_def Let_def)

section \<open>Proofs: Hover-Play Manager\<close>

lemma hover_ok_unregister: "hover_ok m \<Longrightarrow> hover_ok (unregister m x)"
proof -
  assume ok: "hover_ok m"
  have k: "set (map fst (AList.delete x (cleanupFunctions m))) = set (map fst (cleanupFunctions m)) - {x}"
    by (simp add: AList.delete_keys)
  show ?thesis
  proof (cases "map_of (cleanupFunctions m) x")
    case None
    then have "x \<notin> fst ` set (cleanupFunctions m)" by (simp add: map_of_eq_None_iff)
    with ok have "x \<notin> set (activeAnimations m)" by (simp add: hover_ok_def)
    then have "removeAll x (activeAnimations m) = activeAnimations m" by simp
    with None ok show ?thesis by (simp add: unregister_def hover_ok_def)
  next
    case (Some c)
    with ok k show ?thesis
      by (simp add: unregister_def hover_ok_def distinct_removeAll AList.distinct_delete)
  qed
qed

lemma unregister_head:
  assumes ok: "hover_ok m" and a: "activeAnimations m = x # rest"
  shows "activeAnimations (unregister m x) = rest"
    and "maxConcurrent (unregister m x) = maxConcurrent m"
    and "\<exists>c. map_of (cleanupFunctions m) x = Some c \<and> cleanupCalls (unregister m x) = cleanupCalls m @ [c]"
proof -
  from ok a have d: "x \<notin> set rest" by (simp add: hover_ok_def)
  then have r: "removeAll x (x # rest) = rest" by simp
  from ok a have "x \<in> fst ` set (cleanupFunctions m)" by (simp add: hover_ok_def)
  then obtain c where c: "map_of (cleanupFunctions m) x = Some c"
    by (metis domD dom_map_of_conv_image_fst)
  from c a r show "activeAnimations (unregister m x) = rest" by (simp add: unregister_def)
  from c show "maxConcurrent (unregister m x) = maxConcurrent m" by (simp add: unregister_def)
  from c show "\<exists>c. map_of (cleanupFunctions m) x = Some c \<and> cleanupCalls (unregister m x) = cleanupCalls m @ [c]"
    by (simp add: unregister_def)
qed

lemma hover_ok_admit:
  assumes ok: "hover_ok m" and n: "x \<notin> set (activeAnimations m)"
  shows "hover_ok (m\<lparr>activeAnimations := set_add x (activeAnimations m),
                     cleanupFunctions := AList.update x c (cleanupFunctions m)\<rparr>)"
proof -
  from ok n have "x \<notin> set (map fst (cleanupFunctions m))" by (simp add: hover_ok_def)
  then have "map fst (AList.update x c (cleanupFunctions m)) = map fst (cleanupFunctions m) @ [x]"
    by (simp add: AList.update_keys)
  with ok n show ?thesis by (auto simp: hover_ok_def set_add_def)
qed

lemma hover_inv_register:
  assumes inv: "hover_inv m" and ne: "x \<noteq> []"
  shows "hover_inv (snd (register_hover m x c))"
proof (cases "x \<in> set (activeAnimations m)")
  case True
  with inv show ?thesis by (simp add: register_hover_def)
next
  case False
  from inv have ok: "hover_ok m" and mx: "maxConcurrent m = 3"
    and len: "length (activeAnimations m) \<le> 3" and nn: "[] \<notin> set (activeAnimations m)"
    by (simp_all add: hover_inv_def)
  show ?thesis
  proof (cases "length (activeAnimations m) = 3")
    case full: True
    then obtain y rest where a: "activeAnimations m = y # rest" by (cases "activeAnimations m") auto
    with nn have y: "y \<noteq> []" by auto
    let ?m1 = "unregister m y"
    note u = unregister_head[OF ok a]
    have ok1: "hover_ok ?m1" by (rule hover_ok_unregister[OF ok])
    from False a u(1) have n1: "x \<notin> set (activeAnimations ?m1)" by simp
    have r: "snd (register_hover m x c) =
       ?m1\<lparr>activeAnimations := set_add x (activeAnimations ?m1),
            cleanupFunctions := AList.update x c (cleanupFunctions ?m1)\<rparr>"
      using False full mx a y by (simp add: register_hover_def Let_def)
    from hover_ok_admit[OF ok1 n1, of c] u(1,2) mx full a nn ne n1 show ?thesis
      unfolding r hover_inv_def by (auto simp: set_add_def)
  next
    case notfull: False
    with len have lt: "length (activeAnimations m) < 3" by simp
    have r: "snd (register_hover m x c) =
       m\<lparr>activeAnimations := set_add x (activeAnimations m),
            cleanupFunctions := AList.update x c (cleanupFunctions m)\<rparr>"
      using False lt mx by (simp add: register_hover_def Let_def)
    from hover_ok_admit[OF ok False, of c] mx lt nn ne False show ?thesis
      unfolding r hover_inv_def by (auto simp: set_add_def)
  qed
qed

lemma hover_inv_new: "hover_inv newHoverPlayManager"
  by (simp add: hover_inv_def hover_ok_def newHoverPlayManager_def)

lemma hover_inv_registerAll:
  "hover_inv m \<Longrightarrow> list_all (\<lambda>r. fst r \<noteq> []) rs \<Longrightarrow> hover_inv (registerAll rs m)"
proof (induction rs arbitrary: m)
  case Nil
  then show ?case by simp
next
  case (Cons r rs)
  obtain x c where r: "r = (x, c)" by (cases r)
  with Cons.prems have "x \<noteq> []" "list_all (\<lambda>r. fst r \<noteq> []) rs" by simp_all
  with Cons.IH[OF hover_inv_register[OF Cons.prems(1), of x c]] r show ?case by simp
qed

text \<open>For ids that are non-empty strings the limit holds and eviction is first-in
  first-out: after any sequence of \<open>register\<close> calls at most three ids are active, and
  registering a fourth distinct id evicts exactly the oldest one and calls its cleanup
  callback once.\<close>

lemma hover_bound_nonempty_ids:
  "list_all (\<lambda>r. fst r \<noteq> []) rs \<Longrightarrow> getActiveCount (registerAll rs newHoverPlayManager) \<le> 3"
  using hover_inv_registerAll[OF hover_inv_new, of rs] by (simp add: hover_inv_def getActiveCount_def)

lemma hover_fifo_nonempty_ids:
  assumes "distinct [a, b, c, d]" and "a \<noteq> []" "b \<noteq> []" "c \<noteq> []" "d \<noteq> []"
  shows "registerAll [(a, ca), (b, cb), (c, cc)] newHoverPlayManager =
           \<lparr> activeAnimations = [a, b, c], cleanupFunctions = [(a, ca), (b, cb), (c, cc)],
             maxConcurrent = 3, cleanupCalls = [] \<rparr>
       \<and> register_hover (registerAll [(a, ca), (b, cb), (c, cc)] newHoverPlayManager) d cd =
           (True, \<lparr> activeAnimations = [b, c, d], cleanupFunctions = [(b, cb), (c, cc), (d, cd)],
             maxConcurrent = 3, cleanupCalls = [ca] \<rparr>)"
  using assms
  by (auto simp add: register_hover_def newHoverPlayManager_def set_add_def unregister_def Let_def)

text \<open>C2: with the default limit of 3, \<open>getActiveCount()\<close> should never exceed 3 and a
  fourth registration should evict the oldest id and call its cleanup callback. The code
  does not do so when the oldest active id is the empty string: \<open>if (oldestId)\<close> is false
  for it, nothing is evicted, no cleanup runs and four ids are active.\<close>

theorem hover_empty_id_overflow:
  "getActiveCount (registerAll [('''', 0), (''a'', 1), (''b'', 2), (''c'', 3)]
      (newHoverPlayManager :: nat HoverPlayManager)) = 4
   \<and> cleanupCalls (registerAll [('''', 0), (''a'', 1), (''b'', 2), (''c'', 3)]
      (newHoverPlayManager :: nat HoverPlayManager)) = []
   \<and> isActive (registerAll [('''', 0), (''a'', 1), (''b'', 2), (''c'', 3)]
      (newHoverPlayManager :: nat HoverPlayManager)) ''''"
  by (simp add: register_hover_def newHoverPlayManager_def set_add_def getActiveCount_def
      isActive_def Let_def)

section \<open>Proofs: canvas pool\<close>

lemma acquire_pooled:
  assumes "pool (canvasPool st) \<noteq> []" and "last (pool (canvasPool st)) < length (objects st)"
  shows "acquire st w h =
     (last (pool (canvasPool st)),
      st\<lparr>objects := (objects st)[last (pool (canvasPool st)) :=
              setHeight (setWidth (objects st ! last (pool (canvasPool st))) w) h],
         canvasPool := (canvasPool st)\<lparr>pool := butlast (pool (canvasPool st))\<rparr>\<rparr>)"
  using assms by (simp add: acquire_def Let_def)

lemma acquire_created:
  assumes "pool (canvasPool st) = []"
  shows "acquire st w h =
     (length (objects st),
      st\<lparr>objects := objects st @ [setHeight (setWidth newCanvasObject w) h]\<rparr>)"
  using assms by (simp add: acquire_def createElement_def Let_def)

lemma new_object_sized:
  "setHeight (setWidth newCanvasObject w) h = newCanvasObject\<lparr>element := createCanvas\<lparr>width := w, height := h\<rparr>\<rparr>"
  by (simp add: setHeight_def setWidth_def resetBitmap_def newCanvasObject_def createCanvas_def)

lemma release_retained:
  assumes "length (pool (canvasPool st)) < maxSize (canvasPool st)"
  shows "release st cv =
     st\<lparr>objects := (objects st)[cv :=
            (if fst (objectGetContext2d (objects st ! cv))
             then clearWhole (snd (objectGetContext2d (objects st ! cv)))
             else snd (objectGetContext2d (objects st ! cv)))],
        canvasPool := (canvasPool st)\<lparr>pool := pool (canvasPool st) @ [cv]\<rparr>\<rparr>"
  using assms by (simp add: release_def Let_def split: prod.splits)

lemma release_discarded:
  "\<not> length (pool (canvasPool st)) < maxSize (canvasPool st) \<Longrightarrow> release st cv = st"
  by (simp add: release_def)

lemma getContext2d_webgl:
  "contextMode (element obj) = ModeWebGL \<Longrightarrow> objectGetContext2d obj = (False, obj)"
  by (simp add: objectGetContext2d_def getContext2d_def)

lemma getContext2d_other:
  "contextMode (element obj) \<noteq> ModeWebGL \<Longrightarrow>
   objectGetContext2d obj =
     (True, obj\<lparr>element := (element obj)\<lparr>contextMode := Mode2D\<rparr>,
               ctxDefault := (contextMode (element obj) = NoContext \<or> ctxDefault obj)\<rparr>)"
  by (cases "contextMode (element obj)") (simp_all add: objectGetContext2d_def getContext2d_def)

lemma onObject_fields:
  "canvasPool (onObject f cv st) = canvasPool st" "length (objects (onObject f cv st)) = length (objects st)"
  by (simp_all add: onObject_def)

lemma pool_ok_step: "pool_ok st \<Longrightarrow> pool_ok (pool_step c st)"
proof (cases c)
  case (Acquire w h)
  assume ok: "pool_ok st"
  show ?thesis
  proof (cases "pool (canvasPool st) = []")
    case True
    with ok Acquire show ?thesis by (simp add: acquire_created pool_ok_def)
  next
    case False
    with ok have lt: "last (pool (canvasPool st)) < length (objects st)"
      by (simp add: pool_ok_def)
    have "set (butlast (pool (canvasPool st))) \<subseteq> set (pool (canvasPool st))"
      by (auto dest: in_set_butlastD)
    with ok Acquire show ?thesis by (auto simp: acquire_pooled[OF False lt] pool_ok_def)
  qed
next
  case (Release cv)
  assume ok: "pool_ok st"
  show ?thesis
  proof (cases "cv < length (objects st) \<and> length (pool (canvasPool st)) < maxSize (canvasPool st)")
    case True
    with ok Release show ?thesis by (auto simp: release_retained pool_ok_def)
  next
    case False
    with ok Release show ?thesis by (auto simp: release_discarded)
  qed
next
  case Clear
  assume "pool_ok st"
  with Clear show ?thesis by (simp add: clear_def pool_ok_def)
next
  case CreateElement
  assume "pool_ok st"
  with CreateElement show ?thesis by (auto simp: createElement_def pool_ok_def)
next
  case (GetContext2d cv)
  assume "pool_ok st"
  with GetContext2d show ?thesis by (simp add: pool_ok_def onObject_fields)
next
  case (GetContextWebgl b cv)
  assume "pool_ok st"
  with GetContextWebgl show ?thesis by (simp add: pool_ok_def onObject_fields)
next
  case (Paint cv)
  assume "pool_ok st"
  with Paint show ?thesis by (simp add: pool_ok_def onObject_fields)
next
  case (Transform cv)
  assume "pool_ok st"
  with Transform show ?thesis by (simp add: pool_ok_def onObject_fields)
qed

lemma pool_ok_run: "pool_ok st \<Longrightarrow> pool_ok (pool_run cs st)"
  by (induction cs arbitrary: st) (simp_all add: pool_ok_step)

lemma pool_ok_new: "pool_ok newPoolState"
  by (simp add: pool_ok_def newPoolState_def newCanvasPool_def)

text \<open>C9 (as amended): for every sequence of calls on a new pool, with whatever the callers
  do to the canvases in between, the idle pool never holds more than 10 buffers, each of
  them an existing canvas. While it holds fewer than 10, \<open>release\<close> retains the buffer,
  and for a buffer that yields a 2D context it first calls \<open>clearRect\<close> over the
  buffer's width and height, which leaves the buffer blank when the context's
  transformation and clipping region are the defaults; when the pool holds 10,
  \<open>release\<close> changes nothing. \<open>acquire\<close> hands out the most recently pooled buffer, or
  a new canvas when the pool is empty. It never calls \<open>clearRect\<close>, but it assigns the
  width and the height of the very object it hands out, and for a buffer with a 2D context
  the assignment resets the bitmap: the buffer is blank afterwards.\<close>

theorem pool_release_acquire:
  assumes "st = pool_run cs newPoolState"
  shows "length (pool (canvasPool st)) \<le> 10
      \<and> (\<forall>canvas\<in>set (pool (canvasPool st)). canvas < length (objects st))
      \<and> (cv < length (objects st) \<and> length (pool (canvasPool st)) < 10 \<longrightarrow>
           pool (canvasPool (release st cv)) = pool (canvasPool st) @ [cv]
           \<and> (contextMode (element (objects st ! cv)) \<noteq> ModeWebGL \<longrightarrow>
                objects (release st cv) =
                  (objects st)[cv := clearWhole (snd (objectGetContext2d (objects st ! cv)))]
                \<and> clearRectCalls (element (objects (release st cv) ! cv)) =
                    Suc (clearRectCalls (element (objects st ! cv)))
                \<and> (ctxDefault (objects st ! cv) \<longrightarrow> \<not> painted (objects (release st cv) ! cv))))
      \<and> (\<not> length (pool (canvasPool st)) < 10 \<longrightarrow> release st cv = st)
      \<and> (pool (canvasPool st) \<noteq> [] \<longrightarrow>
           fst (acquire st w h) = last (pool (canvasPool st))
           \<and> pool (canvasPool (snd (acquire st w h))) = butlast (pool (canvasPool st))
           \<and> objects (snd (acquire st w h)) =
               (objects st)[last (pool (canvasPool st)) :=
                  setHeight (setWidth (objects st ! last (pool (canvasPool st))) w) h]
           \<and> width (element (objects (snd (acquire st w h)) ! last (pool (canvasPool st)))) = w
           \<and> height (element (objects (snd (acquire st w h)) ! last (pool (canvasPool st)))) = h
           \<and> clearRectCalls (element (objects (snd (acquire st w h)) ! last (pool (canvasPool st)))) =
               clearRectCalls (element (objects st ! last (pool (canvasPool st))))
           \<and> (contextMode (element (objects st ! last (pool (canvasPool st)))) = Mode2D \<longrightarrow>
                \<not> painted (objects (snd (acquire st w h)) ! last (pool (canvasPool st)))))
      \<and> (pool (canvasPool st) = [] \<longrightarrow>
           acquire st w h =
             (length (objects st),
              st\<lparr>objects := objects st @ [newCanvasObject\<lparr>element := createCanvas\<lparr>width := w, height := h\<rparr>\<rparr>]\<rparr>))"
proof -
  from pool_ok_run[OF pool_ok_new, of cs] assms have ok: "pool_ok st" by simp
  then have m: "maxSize (canvasPool st) = 10" and l: "length (pool (canvasPool st)) \<le> 10"
    and v: "\<forall>canvas\<in>set (pool (canvasPool st)). canvas < length (objects st)"
    by (simp_all add: pool_ok_def)
  have rel: "cv < length (objects st) \<and> length (pool (canvasPool st)) < 10 \<longrightarrow>
           pool (canvasPool (release st cv)) = pool (canvasPool st) @ [cv]
           \<and> (contextMode (element (objects st ! cv)) \<noteq> ModeWebGL \<longrightarrow>
                objects (release st cv) =
                  (objects st)[cv := clearWhole (snd (objectGetContext2d (objects st ! cv)))]
                \<and> clearRectCalls (element (objects (release st cv) ! cv)) =
                    Suc (clearRectCalls (element (objects st ! cv)))
                \<and> (ctxDefault (objects st ! cv) \<longrightarrow> \<not> painted (objects (release st cv) ! cv)))"
  proof (intro impI conjI)
    assume a: "cv < length (objects st) \<and> length (pool (canvasPool st)) < 10"
    with m have lt: "length (pool (canvasPool st)) < maxSize (canvasPool st)" by simp
    show "pool (canvasPool (release st cv)) = pool (canvasPool st) @ [cv]"
      by (simp add: release_retained[OF lt])
    assume n: "contextMode (element (objects st ! cv)) \<noteq> ModeWebGL"
    show o: "objects (release st cv) =
        (objects st)[cv := clearWhole (snd (objectGetContext2d (objects st ! cv)))]"
      by (simp add: release_retained[OF lt] getContext2d_other[OF n])
    from a show "clearRectCalls (element (objects (release st cv) ! cv)) =
        Suc (clearRectCalls (element (objects st ! cv)))"
      by (simp add: o getContext2d_other[OF n] clearWhole_def clearRect_def)
    assume "ctxDefault (objects st ! cv)"
    with a show "\<not> painted (objects (release st cv) ! cv)"
      by (simp add: o getContext2d_other[OF n] clearWhole_def)
  qed
  have dis: "\<not> length (pool (canvasPool st)) < 10 \<longrightarrow> release st cv = st"
    using m by (simp add: release_discarded)
  have acq: "pool (canvasPool st) \<noteq> [] \<longrightarrow>
           fst (acquire st w h) = last (pool (canvasPool st))
           \<and> pool (canvasPool (snd (acquire st w h))) = butlast (pool (canvasPool st))
           \<and> objects (snd (acquire st w h)) =
               (objects st)[last (pool (canvasPool st)) :=
                  setHeight (setWidth (objects st ! last (pool (canvasPool st))) w) h]
           \<and> width (element (objects (snd (acquire st w h)) ! last (pool (canvasPool st)))) = w
           \<and> height (element (objects (snd (acquire st w h)) ! last (pool (canvasPool st)))) = h
           \<and> clearRectCalls (element (objects (snd (acquire st w h)) ! last (pool (canvasPool st)))) =
               clearRectCalls (element (objects st ! last (pool (canvasPool st))))
           \<and> (contextMode (element (objects st ! last (pool (canvasPool st)))) = Mode2D \<longrightarrow>
                \<not> painted (objects (snd (acquire st w h)) ! last (pool (canvasPool st))))"
  proof
    assume ne: "pool (canvasPool st) \<noteq> []"
    with v have lt: "last (pool (canvasPool st)) < length (objects st)" by simp
    from lt show "fst (acquire st w h) = last (pool (canvasPool st))
           \<and> pool (canvasPool (snd (acquire st w h))) = butlast (pool (canvasPool st))
           \<and> objects (snd (acquire st w h)) =
               (objects st)[last (pool (canvasPool st)) :=
                  setHeight (setWidth (objects st ! last (pool (canvasPool st))) w) h]
           \<and> width (element (objects (snd (acquire st w h)) ! last (pool (canvasPool st)))) = w
           \<and> height (element (objects (snd (acquire st w h)) ! last (pool (canvasPool st)))) = h
           \<and> clearRectCalls (element (objects (snd (acquire st w h)) ! last (pool (canvasPool st)))) =
               clearRectCalls (element (objects st ! last (pool (canvasPool st))))
           \<and> (contextMode (element (objects st ! last (pool (canvasPool st)))) = Mode2D \<longrightarrow>
                \<not> painted (objects (snd (acquire st w h)) ! last (pool (canvasPool st))))"
      by (simp add: acquire_pooled[OF ne lt] setHeight_def setWidth_def resetBitmap_def)
  qed
  have cre: "pool (canvasPool st) = [] \<longrightarrow>
           acquire st w h =
             (length (objects st),
              st\<lparr>objects := objects st @ [newCanvasObject\<lparr>element := createCanvas\<lparr>width := w, height := h\<rparr>\<rparr>]\<rparr>)"
    by (simp add: acquire_created new_object_sized)
  from l v rel dis acq cre show ?thesis by blast
qed

text \<open>C9 as stated fails, \<open>acquire\<close> does clear a pooled buffer: a caller acquires a
  canvas, draws on it, releases it and, still holding its reference, draws on it once
  more. The pool then holds a painted buffer, and the next \<open>acquire\<close> hands it out
  blank without any call of \<open>clearRect\<close>: the assignment to \<open>canvas.width\<close> has
  reset the bitmap.\<close>

theorem acquire_resets_pooled_canvas:
  "pool (canvasPool (pool_run poolLateDraw newPoolState)) = [0]
   \<and> painted (objects (pool_run poolLateDraw newPoolState) ! 0)
   \<and> clearRectCalls (element (objects (pool_run poolLateDraw newPoolState) ! 0)) = 1
   \<and> fst (acquire (pool_run poolLateDraw newPoolState) 800 600) = 0
   \<and> \<not> painted (objects (snd (acquire (pool_run poolLateDraw newPoolState) 800 600)) ! 0)
   \<and> clearRectCalls (element (objects (snd (acquire (pool_run poolLateDraw newPoolState) 800 600)) ! 0)) = 1"
  by (simp add: poolLateDraw_def newPoolState_def newCanvasPool_def acquire_def release_def
      createElement_def newCanvasObject_def createCanvas_def objectGetContext2d_def getContext2d_def
      clearWhole_def clearRect_def setWidth_def setHeight_def resetBitmap_def paint_def onObject_def
      Let_def)

theorem pool_release_acquire_witness:
  "length (pool (canvasPool (pool_run poolDemo newPoolState))) \<le> 10
   \<and> pool (canvasPool (pool_run poolDemo newPoolState)) = [0]
   \<and> (0::nat) < length (objects (pool_run poolDemo newPoolState))
   \<and> pool (canvasPool (release (pool_run poolDemo newPoolState) 0)) = [0, 0]
   \<and> clearRectCalls (element (objects (release (pool_run poolDemo newPoolState) 0) ! 0)) = 2
   \<and> \<not> painted (objects (release (pool_run poolDemo newPoolState) 0) ! 0)
   \<and> fst (acquire (pool_run poolDemo newPoolState) 32 32) = 0
   \<and> pool (canvasPool (snd (acquire (pool_run poolDemo newPoolState) 32 32))) = []
   \<and> width (element (objects (snd (acquire (pool_run poolDemo newPoolState) 32 32)) ! 0)) = 32
   \<and> clearRectCalls (element (objects (snd (acquire (pool_run poolDemo newPoolState) 32 32)) ! 0)) = 1"
proof -
  note t = pool_release_acquire[OF refl, where cs = poolDemo and cv = 0 and w = 32 and h = 32]
  have p: "pool_run poolDemo newPoolState =
      \<lparr> objects = [\<lparr> element = \<lparr> width = 800, height = 600, contextMode = Mode2D, clearRectCalls = 1 \<rparr>,
                      painted = False, ctxDefault = True \<rparr>],
        canvasPool = \<lparr> pool = [0], maxSize = 10 \<rparr> \<rparr>"
    by (simp add: poolDemo_def newPoolState_def newCanvasPool_def acquire_def release_def
      createElement_def newCanvasObject_def createCanvas_def objectGetContext2d_def getContext2d_def
      clearWhole_def clearRect_def setWidth_def setHeight_def resetBitmap_def paint_def onObject_def
      Let_def)
  from t show ?thesis unfolding p
    by (simp add: release_def acquire_def objectGetContext2d_def getContext2d_def clearWhole_def
        clearRect_def setWidth_def setHeight_def resetBitmap_def Let_def)
qed

subsection \<open>Further runs of the pool\<close>

text \<open>A canvas bound to a WebGL context yields no 2D context, so \<open>release\<close> retains it
  without doing anything to it, although the comment in \<open>release\<close> reads
  \<open>Clear canvas before returning to pool\<close>.\<close>

lemma release_keeps_webgl_canvas_untouched:
  "pool_run poolWebgl newPoolState =
     \<lparr> objects = [newCanvasObject\<lparr>element := createCanvas\<lparr>contextMode := ModeWebGL\<rparr>\<rparr>],
       canvasPool = \<lparr> pool = [0], maxSize = 10 \<rparr> \<rparr>"
  by (simp add: poolWebgl_def newPoolState_def newCanvasPool_def release_def
      createElement_def newCanvasObject_def createCanvas_def objectGetContext2d_def getContext2d_def
      objectGetContextWebgl_def getContextWebgl_def onObject_def Let_def)

text \<open>A canvas that is released twice is in the pool twice, as one object: the second
  \<open>release\<close> clears it again, and the \<open>acquire\<close> that pops one of the two references
  resizes the canvas that the other reference still names.\<close>

lemma release_twice_shares_canvas:
  "pool (canvasPool (pool_run poolTwice newPoolState)) = [0, 1, 0]
   \<and> clearRectCalls (element (objects (pool_run poolTwice newPoolState) ! 0)) = 2
   \<and> fst (acquire (pool_run poolTwice newPoolState) 7 9) = 0
   \<and> pool (canvasPool (snd (acquire (pool_run poolTwice newPoolState) 7 9))) = [0, 1]
   \<and> width (element (objects (snd (acquire (pool_run poolTwice newPoolState) 7 9)) ! 0)) = 7
   \<and> height (element (objects (snd (acquire (pool_run poolTwice newPoolState) 7 9)) ! 0)) = 9"
  by (simp add: poolTwice_def newPoolState_def newCanvasPool_def acquire_def release_def
      createElement_def newCanvasObject_def createCanvas_def objectGetContext2d_def getContext2d_def
      clearWhole_def clearRect_def setWidth_def setHeight_def resetBitmap_def Let_def)

text \<open>A caller fills the canvas, then leaves a translation set on the context. The
  \<open>clearRect\<close> of \<open>release\<close> is called, but under the translation its rectangle
  is not the whole bitmap.\<close>

lemma release_under_transform:
  "clearRectCalls (element (objects (pool_run poolTransformed newPoolState) ! 0)) = 1
   \<and> painted (objects (pool_run poolTransformed newPoolState) ! 0)"
  by (simp add: poolTransformed_def newPoolState_def newCanvasPool_def acquire_def release_def
      createElement_def newCanvasObject_def createCanvas_def objectGetContext2d_def getContext2d_def
      clearWhole_def clearRect_def setWidth_def setHeight_def resetBitmap_def paint_def transform_def
      onObject_def Let_def)
section \<open>Proofs: Canvas Engine\<close>

lemma demoEngine_new: "newCanvasEngine desktop True demoLayout createCanvas Type2d = Inr demoEngine"
  by (simp add: newCanvasEngine_def desktop_def demoLayout_def createCanvas_def getContext2d_def
      detectLowEndDevice_def setupCanvas_def demoEngine_def Let_def)

lemma requestFrame_fields:
  "isPlaying (requestFrame e) = isPlaying e" "animation (requestFrame e) = animation e"
  "ctx (requestFrame e) = ctx e" "fpsThrottle (requestFrame e) = fpsThrottle e"
  "lastFrameTime (requestFrame e) = lastFrameTime e" "lastTime (requestFrame e) = lastTime e"
  "fps (requestFrame e) = fps e" "frameCount (requestFrame e) = frameCount e"
  "fpsUpdateTime (requestFrame e) = fpsUpdateTime e" "calls (requestFrame e) = calls e"
  "frameRequests (requestFrame e) = Suc (frameRequests e)" "speed (requestFrame e) = speed e"
  "deltaTime (requestFrame e) = deltaTime e" "resizeObserver (requestFrame e) = resizeObserver e"
  by (simp_all add: requestFrame_def)

lemma frameTiming_fields:
  "isPlaying (frameTiming t e) = isPlaying e" "animation (frameTiming t e) = animation e"
  "ctx (frameTiming t e) = ctx e" "fpsThrottle (frameTiming t e) = fpsThrottle e"
  "calls (frameTiming t e) = calls e" "frameRequests (frameTiming t e) = frameRequests e"
  "speed (frameTiming t e) = speed e" "resizeObserver (frameTiming t e) = resizeObserver e"
  "lastTime (frameTiming t e) = t"
  "lastFrameTime (frameTiming t e) = (if fpsThrottle e > 0 then t else lastFrameTime e)"
  "deltaTime (frameTiming t e) = (if lastTime e = 0 then 0 else t - lastTime e)"
  by (simp_all add: frameTiming_def Let_def)

lemma frameTiming_window:
  "fps (frameTiming t e) =
     (if t - fpsUpdateTime e \<ge> 1000
      then mathRound (real (Suc (frameCount e)) * 1000 / (t - fpsUpdateTime e)) else fps e)"
  "frameCount (frameTiming t e) = (if t - fpsUpdateTime e \<ge> 1000 then 0 else Suc (frameCount e))"
  "fpsUpdateTime (frameTiming t e) = (if t - fpsUpdateTime e \<ge> 1000 then t else fpsUpdateTime e)"
  by (simp_all add: frameTiming_def Let_def)



lemma tick_executed:
  assumes "animation e = Some a" "isPlaying e" "ctx e = Some c" "wellBehaved a"
    and "\<not> (0 < fpsThrottle e \<and> t - lastFrameTime e < fpsThrottle e)"
  shows "animationLoop t now e =
     (requestFrame ((frameTiming t e)\<lparr>calls := calls e @
        [(UpdateCall, contextOf c now (frameTiming t e)), (RenderCall, contextOf c now (frameTiming t e))]\<rparr>),
      None)"
  using assms
  by (auto simp add: animationLoop_def getContext_def frameTiming_fields wellBehaved_def Let_def)


















lemma idle_wellBehaved: "wellBehaved idleAnimation"
  by (simp add: wellBehaved_def idleAnimation_def)



lemma tick_calls_grow: "\<exists>ys. calls (fst (animationLoop t now e)) = calls e @ ys"
  by (simp add: animationLoop_def getContext_def Let_def requestFrame_fields frameTiming_fields
      split: option.splits sum.splits)

lemma drive_calls_grow: "\<exists>ys. calls (fst (drive fs e)) = calls e @ ys"
proof (induction fs arbitrary: e)
  case Nil
  then show ?case by simp
next
  case (Cons f fs)
  obtain t now where f: "f = (t, now)" by (cases f)
  from tick_calls_grow[of t now e] obtain ys where
    a: "calls (fst (animationLoop t now e)) = calls e @ ys" ..
  show ?case
  proof (cases "snd (animationLoop t now e)")
    case None
    from Cons[of "fst (animationLoop t now e)"] obtain zs where
      "calls (fst (drive fs (fst (animationLoop t now e)))) = calls (fst (animationLoop t now e)) @ zs" ..
    with a None show ?thesis by (simp add: f andThen_def)
  next
    case (Some err)
    with a show ?thesis by (simp add: f andThen_def)
  qed
qed

lemma first_tick:
  assumes "lastTime e = 0"
  shows "(calls (fst (animationLoop t now e)) = calls e \<and>
          (snd (animationLoop t now e) = None \<longrightarrow> lastTime (fst (animationLoop t now e)) = 0))
       \<or> (\<exists>cx more. calls (fst (animationLoop t now e)) = calls e @ (UpdateCall, cx) # more
             \<and> cx_deltaTime cx = 0)"
proof (cases "animation e")
  case None
  with assms show ?thesis by (simp add: animationLoop_def)
next
  case (Some a)
  show ?thesis
  proof (cases "\<not> isPlaying e \<or> (0 < fpsThrottle e \<and> t - lastFrameTime e < fpsThrottle e)")
    case True
    with Some assms show ?thesis by (auto simp: animationLoop_def requestFrame_fields)
  next
    case False
    show ?thesis
    proof (cases "ctx e")
      case None
      with Some False show ?thesis
        by (auto simp: animationLoop_def getContext_def frameTiming_fields Let_def)
    next
      case c: (Some c)
      have d: "cx_deltaTime (contextOf c now (frameTiming t e)) = 0"
        using assms by (simp add: contextOf_def frameTiming_fields)
      have "\<exists>more. calls (fst (animationLoop t now e)) =
          calls e @ (UpdateCall, contextOf c now (frameTiming t e)) # more"
        using Some False c
        by (auto simp: animationLoop_def getContext_def frameTiming_fields requestFrame_fields Let_def
            split: option.splits)
      with d show ?thesis by blast
    qed
  qed
qed

lemma first_executed:
  "lastTime e = 0 \<Longrightarrow>
   calls (fst (drive fs e)) = calls e
   \<or> (\<exists>cx more. calls (fst (drive fs e)) = calls e @ (UpdateCall, cx) # more \<and> cx_deltaTime cx = 0)"
proof (induction fs arbitrary: e)
  case Nil
  then show ?case by simp
next
  case (Cons f fs)
  obtain t now where f: "f = (t, now)" by (cases f)
  let ?r = "animationLoop t now e"
  from first_tick[OF Cons.prems, of t now]
  consider (quiet) "calls (fst ?r) = calls e" "snd ?r = None \<longrightarrow> lastTime (fst ?r) = 0"
    | (ran) cx more where "calls (fst ?r) = calls e @ (UpdateCall, cx) # more" "cx_deltaTime cx = 0"
    by blast
  then show ?case
  proof cases
    case quiet
    show ?thesis
    proof (cases "snd ?r")
      case None
      with quiet have "lastTime (fst ?r) = 0" by simp
      from Cons.IH[OF this] quiet(1) None show ?thesis by (simp add: f andThen_def)
    next
      case (Some err)
      with quiet show ?thesis by (simp add: f andThen_def)
    qed
  next
    case ran
    show ?thesis
    proof (cases "snd ?r")
      case None
      from drive_calls_grow[of fs "fst ?r"] obtain ys where
        "calls (fst (drive fs (fst ?r))) = calls (fst ?r) @ ys" ..
      with ran None show ?thesis by (simp add: f andThen_def)
    next
      case (Some err)
      with ran show ?thesis by (simp add: f andThen_def)
    qed
  qed
qed

text \<open>C5 (as amended): after a \<open>play()\<close> call that finds the engine not playing, whatever
  happened before, the frame callbacks that follow build no context until one is executed,
  and the first context built, the one passed to \<open>update\<close>, has \<open>deltaTime\<close> 0.\<close>

theorem first_frame_delta_is_zero:
  assumes "\<not> isPlaying e"
  shows "calls (fst (drive frames (play now e))) = calls e
       \<or> (\<exists>cx more. calls (fst (drive frames (play now e))) = calls e @ (UpdateCall, cx) # more
             \<and> cx_deltaTime cx = 0)"
proof -
  from assms have "lastTime (play now e) = 0" "calls (play now e) = calls e"
    by (simp_all add: play_def requestFrame_fields)
  with first_executed[of "play now e" frames] show ?thesis by simp
qed


lemmas engine_defs =
  loadAnimation_def andThen_def cleanupActive_def stop_def pause_def invoke_def getContext_def
  play_def requestFrame_def animationLoop_def frameTiming_def contextOf_def restart_def
  destroy_def setSpeed_def setParameters_def getFPS_def mathRound_def Let_def

lemma demoLoaded_fields:
  "\<not> isPlaying demoLoaded" "animation demoLoaded = Some idleAnimation"
  "calls demoLoaded = [(InitCall, contextOf CanvasRenderingContext2D 0 demoEngine)]"
  by (simp_all add: demoLoaded_def demoEngine_def engine_defs idleAnimation_def)

theorem first_frame_delta_is_zero_witness:
  "\<not> isPlaying demoLoaded
   \<and> length (calls demoLoaded) = 1
   \<and> length (calls (fst (drive [(16, 17)] (play 5 demoLoaded)))) = 3
   \<and> (\<exists>cx more. calls (fst (drive [(16, 17)] (play 5 demoLoaded))) = calls demoLoaded @ (UpdateCall, cx) # more
             \<and> cx_deltaTime cx = 0)"
proof -
  note t = first_frame_delta_is_zero[OF demoLoaded_fields(1), of "[(16, 17)]" 5]
  have l: "length (calls (fst (drive [(16, 17)] (play 5 demoLoaded)))) = 3"
    by (simp add: demoLoaded_def demoEngine_def engine_defs idleAnimation_def)
  have l0: "length (calls demoLoaded) = 1" by (simp add: demoLoaded_fields)
  from l l0 have "calls (fst (drive [(16, 17)] (play 5 demoLoaded))) \<noteq> calls demoLoaded"
    by auto
  with t l l0 demoLoaded_fields(1) show ?thesis by blast
qed

text \<open>C5 as stated fails for a \<open>play()\<close> call on an engine that is already
  playing: the call returns at once and resets nothing, so the next tick measures its delta
  from the previous frame (here 16 ms).\<close>

theorem play_while_playing_keeps_stale_delta:
  "newCanvasEngine desktop True demoLayout createCanvas Type2d = Inr demoEngine
   \<and> demoPlaying = engine_run [LoadAnimation idleAnimation 0, Play 0, Frame 16 17] demoEngine
   \<and> map (\<lambda>c. (fst c, cx_deltaTime (snd c)))
        (drop (length (calls demoPlaying)) (calls (fst (drive [(32, 33)] (play 20 demoPlaying)))))
      = [(UpdateCall, 16), (RenderCall, 16)]"
  by (simp add: demoEngine_new demoPlaying_def demoLoaded_def demoEngine_def engine_defs idleAnimation_def)


lemma tick_timing:
  assumes "isPlaying e" "animation e = Some a"
    and "\<not> (0 < fpsThrottle e \<and> t - lastFrameTime e < fpsThrottle e)"
  shows "fps (fst (animationLoop t now e)) = fps (frameTiming t e)"
    and "frameCount (fst (animationLoop t now e)) = frameCount (frameTiming t e)"
    and "fpsUpdateTime (fst (animationLoop t now e)) = fpsUpdateTime (frameTiming t e)"
  using assms
  by (auto simp: animationLoop_def getContext_def Let_def requestFrame_fields
      split: option.splits sum.splits)

lemma tick_within_window:
  assumes "t - fpsUpdateTime e < 1000"
  shows "fps (fst (animationLoop t now e)) = fps e
       \<and> fpsUpdateTime (fst (animationLoop t now e)) = fpsUpdateTime e"
  using assms
  by (auto simp: animationLoop_def getContext_def Let_def requestFrame_fields frameTiming_window
      split: option.splits sum.splits)

lemma drive_within_window:
  "list_all (\<lambda>f. fst f - fpsUpdateTime e < 1000) fs \<Longrightarrow> fps (fst (drive fs e)) = fps e"
proof (induction fs arbitrary: e)
  case Nil
  then show ?case by simp
next
  case (Cons f fs)
  obtain t now where f: "f = (t, now)" by (cases f)
  let ?r = "animationLoop t now e"
  from Cons.prems f have w: "t - fpsUpdateTime e < 1000" by simp
  note k = tick_within_window[OF w, of now]
  show ?case
  proof (cases "snd ?r")
    case None
    from Cons.prems k have "list_all (\<lambda>f. fst f - fpsUpdateTime (fst ?r) < 1000) fs" by simp
    from Cons.IH[OF this] k None show ?thesis by (simp add: f andThen_def)
  next
    case (Some err)
    with k show ?thesis by (simp add: f andThen_def)
  qed
qed

text \<open>C6 (as amended): a frame callback that is executed adds one to the frame counter;
  when it finds at least 1000 ms elapsed since the window start, the FPS becomes the frames
  counted in the window times 1000 divided by the milliseconds elapsed, rounded to the
  nearest integer, and the counter and the window start are reset; otherwise the FPS is
  unchanged. A new engine reports 0, and after a \<open>play()\<close> call that starts playback
  \<open>getFPS()\<close> keeps the value it had until a frame arrives 1000 ms or more after that
  call.\<close>

theorem fps_window:
  "(isPlaying e \<and> animation e = Some a
      \<and> \<not> (0 < fpsThrottle e \<and> t - lastFrameTime e < fpsThrottle e) \<longrightarrow>
        getFPS (fst (animationLoop t clock e)) =
          (if 1000 \<le> t - fpsUpdateTime e
           then mathRound (real (Suc (frameCount e)) * 1000 / (t - fpsUpdateTime e)) else getFPS e)
      \<and> frameCount (fst (animationLoop t clock e)) =
          (if 1000 \<le> t - fpsUpdateTime e then 0 else Suc (frameCount e))
      \<and> fpsUpdateTime (fst (animationLoop t clock e)) =
          (if 1000 \<le> t - fpsUpdateTime e then t else fpsUpdateTime e))
   \<and> (newCanvasEngine navigator webglSupported layout cv contextType = Inr e0 \<longrightarrow> getFPS e0 = 0)
   \<and> (\<not> isPlaying e \<and> list_all (\<lambda>f. fst f - now < 1000) frames \<longrightarrow>
        getFPS (fst (drive frames (play now e))) = getFPS e)"
proof (intro conjI impI)
  assume h: "isPlaying e \<and> animation e = Some a
      \<and> \<not> (0 < fpsThrottle e \<and> t - lastFrameTime e < fpsThrottle e)"
  then have p: "isPlaying e" "animation e = Some a"
    "\<not> (0 < fpsThrottle e \<and> t - lastFrameTime e < fpsThrottle e)" by simp_all
  note k = tick_timing[OF p, of clock]
  show "getFPS (fst (animationLoop t clock e)) =
          (if 1000 \<le> t - fpsUpdateTime e
           then mathRound (real (Suc (frameCount e)) * 1000 / (t - fpsUpdateTime e)) else getFPS e)"
    by (simp add: getFPS_def k frameTiming_window)
  show "frameCount (fst (animationLoop t clock e)) =
          (if 1000 \<le> t - fpsUpdateTime e then 0 else Suc (frameCount e))"
    by (simp add: k frameTiming_window)
  show "fpsUpdateTime (fst (animationLoop t clock e)) =
          (if 1000 \<le> t - fpsUpdateTime e then t else fpsUpdateTime e)"
    by (simp add: k frameTiming_window)
next
  assume "newCanvasEngine navigator webglSupported layout cv contextType = Inr e0"
  then show "getFPS e0 = 0"
    by (auto simp: newCanvasEngine_def setupCanvas_def getFPS_def Let_def
        split: prod.splits option.splits)
next
  assume h: "\<not> isPlaying e \<and> list_all (\<lambda>f. fst f - now < 1000) frames"
  then have u: "fpsUpdateTime (play now e) = now" "fps (play now e) = fps e"
    by (simp_all add: play_def requestFrame_fields)
  from h u(1) have "list_all (\<lambda>f. fst f - fpsUpdateTime (play now e) < 1000) frames" by simp
  from drive_within_window[OF this] u(2)
  show "getFPS (fst (drive frames (play now e))) = getFPS e" by (simp add: getFPS_def)
qed

text \<open>C6 as stated fails twice on one run. Two frames, at 750 ms and 1500 ms after
  \<open>play()\<close>, are counted in the first window, but the FPS reported is
  2 * 1000 / 1500 rounded, which is 1. After \<open>pause()\<close> and a second \<open>play()\<close>,
  \<open>getFPS()\<close> still returns 1, not 0, before any window of the second playback has
  elapsed.\<close>

theorem fps_is_a_rate_and_is_kept:
  "newCanvasEngine desktop True demoLayout createCanvas Type2d = Inr demoEngine
   \<and> frameCount (engine_run [LoadAnimation idleAnimation 0, Play 0, Frame 750 751] demoEngine) = 1
   \<and> getFPS (engine_run [LoadAnimation idleAnimation 0, Play 0, Frame 750 751, Frame 1500 1501] demoEngine) = 1
   \<and> frameCount (engine_run [LoadAnimation idleAnimation 0, Play 0, Frame 750 751, Frame 1500 1501] demoEngine) = 0
   \<and> getFPS (engine_run [LoadAnimation idleAnimation 0, Play 0, Frame 750 751, Frame 1500 1501,
        Pause, Play 2000] demoEngine) = 1"
  by (simp add: demoEngine_new demoEngine_def engine_defs idleAnimation_def)


lemma demoPlaying_fields:
  "isPlaying demoPlaying" "animation demoPlaying = Some idleAnimation"
  "fpsThrottle demoPlaying = 0" "fpsUpdateTime demoPlaying = 0" "frameCount demoPlaying = 1"
  "getFPS demoPlaying = 0"
  by (simp_all add: demoPlaying_def demoLoaded_def demoEngine_def engine_defs idleAnimation_def)

theorem fps_window_witness:
  "isPlaying demoPlaying \<and> animation demoPlaying = Some idleAnimation
   \<and> getFPS (fst (animationLoop 1000 1001 demoPlaying)) = 2
   \<and> frameCount (fst (animationLoop 1000 1001 demoPlaying)) = 0
   \<and> fpsUpdateTime (fst (animationLoop 1000 1001 demoPlaying)) = 1000
   \<and> newCanvasEngine desktop True demoLayout createCanvas Type2d = Inr demoEngine
   \<and> getFPS demoEngine = 0
   \<and> \<not> isPlaying demoLoaded
   \<and> getFPS (fst (drive [(16, 17), (32, 33)] (play 0 demoLoaded))) = getFPS demoLoaded"
proof -
  note t = fps_window[where e = demoPlaying and a = idleAnimation and t = 1000 and clock = 1001
      and navigator = desktop and webglSupported = True and layout = demoLayout and cv = createCanvas
      and contextType = Type2d and ?e0.0 = demoEngine]
  note u = fps_window[where e = demoLoaded and now = 0 and frames = "[(16, 17), (32, 33)]"]
  have r: "mathRound (real (Suc (frameCount demoPlaying)) * 1000 / (1000 - fpsUpdateTime demoPlaying)) = 2"
    by (simp add: demoPlaying_fields mathRound_def)
  from t r demoPlaying_fields demoEngine_new
  have a: "getFPS (fst (animationLoop 1000 1001 demoPlaying)) = 2
     \<and> frameCount (fst (animationLoop 1000 1001 demoPlaying)) = 0
     \<and> fpsUpdateTime (fst (animationLoop 1000 1001 demoPlaying)) = 1000
     \<and> getFPS demoEngine = 0"
    by simp
  from u demoLoaded_fields(1)
  have b: "getFPS (fst (drive [(16, 17), (32, 33)] (play 0 demoLoaded))) = getFPS demoLoaded"
    by simp
  from a b demoPlaying_fields demoLoaded_fields(1) demoEngine_new show ?thesis by simp
qed

lemma stop_fields:
  "ctx (stop e) = ctx e" "animation (stop e) = animation e" "calls (stop e) = calls e"
  "resizeObserver (stop e) = resizeObserver e"
  by (simp_all add: stop_def pause_def split: option.splits)

lemma pause_fields:
  "ctx (pause e) = ctx e" "animation (pause e) = animation e"
  by (simp_all add: pause_def split: option.splits)

lemma play_fields:
  "ctx (play now e) = ctx e" "animation (play now e) = animation e"
  by (simp_all add: play_def requestFrame_def)

lemma invoke_ok:
  "ctx e = Some c \<Longrightarrow> f (contextOf c now e) = None \<Longrightarrow>
   invoke now k f e = (e\<lparr>calls := calls e @ [(k, contextOf c now e)]\<rparr>, None)"
  by (simp add: invoke_def getContext_def)

lemma cleanupActive_intact:
  assumes "intact e"
  shows "snd (cleanupActive now e) = None \<and> ctx (fst (cleanupActive now e)) = ctx e
       \<and> animation (fst (cleanupActive now e)) = animation e"
proof -
  from assms obtain c where c: "ctx e = Some c" by (auto simp: intact_def)
  show ?thesis
  proof (cases "animation e")
    case None
    then show ?thesis by (simp add: cleanupActive_def)
  next
    case (Some a)
    with assms have w: "wellBehaved a" by (simp add: intact_def)
    show ?thesis
    proof (cases "cleanup a")
      case None
      with Some show ?thesis by (simp add: cleanupActive_def)
    next
      case f: (Some f)
      with w have "f (contextOf c now e) = None" by (auto simp: wellBehaved_def)
      from invoke_ok[where f = f and k = CleanupCall, OF c this] Some f show ?thesis
        by (simp add: cleanupActive_def)
    qed
  qed
qed

lemma intact_stop: "intact e \<Longrightarrow> intact (stop e)"
  by (simp add: intact_def stop_fields)

lemma intact_step:
  assumes i: "intact e" and g: "gentle c"
  shows "snd (engine_step c e) = None
       \<and> (case c of Destroy now \<Rightarrow> vacant (fst (engine_step c e)) | _ \<Rightarrow> intact (fst (engine_step c e)))"
proof (cases c)
  case (LoadAnimation a now)
  with g have w: "wellBehaved a" by simp
  note k = cleanupActive_intact[OF intact_stop[OF i], of now]
  let ?e1 = "fst (cleanupActive now (stop e))"
  from k i obtain cc where cc: "ctx (?e1\<lparr>animation := Some a\<rparr>) = Some cc"
    by (auto simp: intact_def stop_fields)
  from w have "init a (contextOf cc now (?e1\<lparr>animation := Some a\<rparr>)) = None"
    by (simp add: wellBehaved_def)
  note v = invoke_ok[where f = "init a" and k = InitCall, OF cc this]
  from k v have "loadAnimation a now e =
      (?e1\<lparr>animation := Some a, calls := calls ?e1 @ [(InitCall, contextOf cc now (?e1\<lparr>animation := Some a\<rparr>))]\<rparr>, None)"
    by (simp add: loadAnimation_def andThen_def)
  with LoadAnimation cc w show ?thesis by (simp add: intact_def)
next
  case (Play now)
  with i show ?thesis by (simp add: intact_def play_fields)
next
  case Pause
  with i show ?thesis by (simp add: intact_def pause_fields)
next
  case Stop
  with i show ?thesis by (simp add: intact_def stop_fields)
next
  case (Restart now)
  show ?thesis
  proof (cases "animation (stop e)")
    case None
    with Restart i show ?thesis by (simp add: restart_def intact_def stop_fields)
  next
    case (Some a)
    with i have w: "wellBehaved a" by (simp add: intact_def stop_fields)
    from i obtain cc where cc: "ctx (stop e) = Some cc" by (auto simp: intact_def stop_fields)
    from w have "init a (contextOf cc now (stop e)) = None" by (simp add: wellBehaved_def)
    note v = invoke_ok[where f = "init a" and k = InitCall, OF cc this]
    from v Some have "restart now e =
       (play now ((stop e)\<lparr>calls := calls (stop e) @ [(InitCall, contextOf cc now (stop e))]\<rparr>), None)"
      by (simp add: restart_def andThen_def)
    with Restart Some cc w show ?thesis by (simp add: intact_def play_fields)
  qed
next
  case (SetSpeed s)
  with i show ?thesis by (simp add: intact_def setSpeed_def)
next
  case (SetParameters ps)
  with i show ?thesis by (simp add: intact_def setParameters_def)
next
  case GetFPS
  with i show ?thesis by simp
next
  case (Destroy now)
  note k = cleanupActive_intact[OF intact_stop[OF i], of now]
  with Destroy show ?thesis by (simp add: destroy_def andThen_def vacant_def)
next
  case (Frame t now)
  from i obtain cc where cc: "ctx e = Some cc" by (auto simp: intact_def)
  show ?thesis
  proof (cases "animation e")
    case None
    with Frame i show ?thesis by (simp add: animationLoop_def)
  next
    case (Some a)
    with i have w: "wellBehaved a" by (simp add: intact_def)
    show ?thesis
    proof (cases "isPlaying e \<and> \<not> (0 < fpsThrottle e \<and> t - lastFrameTime e < fpsThrottle e)")
      case True
      with tick_executed[OF Some _ cc w, of t now] Frame i Some show ?thesis
        by (simp add: intact_def requestFrame_fields frameTiming_fields)
    next
      case False
      with Frame i Some show ?thesis
        by (auto simp: animationLoop_def intact_def requestFrame_fields)
    qed
  qed
next
  case (Resize layout now)
  let ?e1 = "setupCanvas layout e"
  have s: "ctx ?e1 = ctx e" "animation ?e1 = animation e"
    by (simp_all add: setupCanvas_def Let_def)
  from i s obtain cc where cc: "ctx ?e1 = Some cc" by (auto simp: intact_def)
  show ?thesis
  proof (cases "resizeObserver e = Some True")
    case False
    with Resize i show ?thesis by (simp add: onResize_def)
  next
    case True
    show ?thesis
    proof (cases "animation e")
      case None
      with Resize True i s show ?thesis by (simp add: onResize_def intact_def)
    next
      case (Some a)
      with i have w: "wellBehaved a" by (simp add: intact_def)
      then have "init a (contextOf cc now ?e1) = None" by (simp add: wellBehaved_def)
      from invoke_ok[where f = "init a" and k = InitCall, OF cc this] Resize True Some s i w show ?thesis
        by (simp add: onResize_def intact_def)
    qed
  qed
qed


lemma vacant_step:
  assumes v: "vacant e" and n: "\<not> isLoad c"
  shows "snd (engine_step c e) = None \<and> vacant (fst (engine_step c e))"
proof (cases c)
  case (LoadAnimation a now)
  with n show ?thesis by simp
next
  case (Play now)
  with v show ?thesis by (simp add: vacant_def play_fields)
next
  case Pause
  with v show ?thesis by (simp add: vacant_def pause_fields)
next
  case Stop
  with v show ?thesis by (simp add: vacant_def stop_fields)
next
  case (Restart now)
  with v show ?thesis by (simp add: vacant_def restart_def stop_fields)
next
  case (SetSpeed s)
  with v show ?thesis by (simp add: vacant_def setSpeed_def)
next
  case (SetParameters ps)
  with v show ?thesis by (simp add: vacant_def setParameters_def)
next
  case GetFPS
  with v show ?thesis by simp
next
  case (Destroy now)
  with v show ?thesis
    by (simp add: vacant_def destroy_def cleanupActive_def andThen_def stop_fields)
next
  case (Frame t now)
  with v show ?thesis by (simp add: vacant_def animationLoop_def)
next
  case (Resize layout now)
  with v show ?thesis by (simp add: vacant_def onResize_def setupCanvas_def Let_def)
qed

lemma thrown_vacant:
  "vacant e \<Longrightarrow> list_all (\<lambda>c. \<not> isLoad c) cs \<Longrightarrow> thrown cs e = []"
proof (induction cs arbitrary: e)
  case Nil
  then show ?case by simp
next
  case (Cons c cs)
  from Cons.prems have n: "\<not> isLoad c" "list_all (\<lambda>c. \<not> isLoad c) cs" by simp_all
  from vacant_step[OF Cons.prems(1) n(1)] Cons.IH[OF _ n(2)] show ?case by simp
qed

lemma thrown_intact:
  "intact e \<Longrightarrow> list_all gentle cs \<Longrightarrow> noLoadAfterDestroy cs \<Longrightarrow> thrown cs e = []"
proof (induction cs arbitrary: e)
  case Nil
  then show ?case by simp
next
  case (Cons c cs)
  from Cons.prems have g: "gentle c" "list_all gentle cs" by simp_all
  note s = intact_step[OF Cons.prems(1) g(1)]
  show ?case
  proof (cases "\<exists>now. c = Destroy now")
    case True
    then obtain now where d: "c = Destroy now" ..
    with s have v: "vacant (fst (engine_step c e))" by simp
    from Cons.prems(3) d have "list_all (\<lambda>c. \<not> isLoad c) cs" by simp
    from thrown_vacant[OF v this] s show ?thesis by simp
  next
    case False
    with s have i: "intact (fst (engine_step c e))" by (cases c) simp_all
    from False Cons.prems(3) have "noLoadAfterDestroy cs" by (cases c) simp_all
    from Cons.IH[OF i g(2) this] s show ?thesis by simp
  qed
qed

lemma thrown_append:
  "thrown (cs @ ds) e = thrown cs e @ thrown ds (engine_run cs e)"
  by (induction cs arbitrary: e) simp_all

lemma newCanvasEngine_intact:
  "newCanvasEngine navigator webglSupported layout cv contextType = Inr e0 \<Longrightarrow> intact e0"
  by (auto simp: newCanvasEngine_def setupCanvas_def intact_def Let_def
      split: prod.splits option.splits)

lemma loadAnimation_without_context:
  assumes "ctx e = None"
  shows "snd (loadAnimation a now e) = Some (Error ''Canvas context not initialized'')"
proof -
  have i: "\<And>k f e1. ctx e1 = None \<Longrightarrow>
      invoke now k f e1 = (e1, Some (Error ''Canvas context not initialized''))"
    by (simp add: invoke_def getContext_def)
  from assms have c: "ctx (stop e) = None" by (simp add: stop_fields)
  show ?thesis
  proof (cases "snd (cleanupActive now (stop e))")
    case (Some err)
    with c i[OF c] show ?thesis
      by (auto simp: loadAnimation_def andThen_def cleanupActive_def split: option.splits)
  next
    case None
    with c i[OF c] have "fst (cleanupActive now (stop e)) = stop e"
      by (auto simp: cleanupActive_def split: option.splits)
    with None c show ?thesis
      by (simp add: loadAnimation_def andThen_def i)
  qed
qed

text \<open>C4 (as amended): after a successful construction, in every sequence of public
  operations and host callbacks (frames, resizes) in which \<open>loadAnimation\<close> is not called
  after \<open>destroy()\<close> and the loaded modules' callbacks do not throw, no operation throws,
  also after \<open>destroy()\<close>. On an engine without its rendering context, which is what
  \<open>destroy()\<close> leaves, \<open>loadAnimation\<close> throws \<open>Canvas context not initialized\<close>.\<close>

theorem engine_operations_total:
  assumes new: "newCanvasEngine navigator webglSupported layout cv contextType = Inr e0"
    and g: "list_all gentle (cs @ [c])" and n: "noLoadAfterDestroy (cs @ [c])"
  shows "thrown cs e0 = [] \<and> snd (engine_step c (engine_run cs e0)) = None
       \<and> (ctx (engine_run cs e0) = None \<longrightarrow>
            snd (loadAnimation a now (engine_run cs e0)) = Some (Error ''Canvas context not initialized''))"
proof -
  from thrown_intact[OF newCanvasEngine_intact[OF new] g n]
  have "thrown cs e0 @ thrown [c] (engine_run cs e0) = []" by (simp add: thrown_append)
  then have "thrown cs e0 = []" "snd (engine_step c (engine_run cs e0)) = None"
    by (simp_all split: option.splits)
  with loadAnimation_without_context[of "engine_run cs e0" a now] show ?thesis by simp
qed

text \<open>C4 as stated fails: \<open>loadAnimation\<close> after \<open>destroy()\<close> throws, and
  since it has set the module before throwing, a following \<open>restart()\<close> and a second
  \<open>destroy()\<close> throw as well. An exception thrown by a module's \<open>init\<close> is not caught
  either.\<close>

theorem loadAnimation_after_destroy_throws:
  "newCanvasEngine desktop True demoLayout createCanvas Type2d = Inr demoEngine
   \<and> snd (engine_step (LoadAnimation idleAnimation 2) (engine_run [Destroy 1] demoEngine))
       = Some (Error ''Canvas context not initialized'')
   \<and> thrown [Destroy 1, LoadAnimation idleAnimation 2, Restart 3, Destroy 4] demoEngine
       = [Error ''Canvas context not initialized'', Error ''Canvas context not initialized'',
          Error ''Canvas context not initialized'']
   \<and> snd (engine_step (LoadAnimation faultyAnimation 0) demoEngine) = Some (Error ''boom'')"
  by (simp add: demoEngine_new demoEngine_def engine_defs idleAnimation_def faultyAnimation_def)

theorem engine_operations_total_witness:
  "newCanvasEngine desktop True demoLayout createCanvas Type2d = Inr demoEngine
   \<and> list_all gentle demoSession \<and> noLoadAfterDestroy demoSession
   \<and> thrown (butlast demoSession) demoEngine = []
   \<and> snd (engine_step (Destroy 50) (engine_run (butlast demoSession) demoEngine)) = None
   \<and> ctx (engine_run (butlast demoSession) demoEngine) = None
   \<and> snd (loadAnimation idleAnimation 60 (engine_run (butlast demoSession) demoEngine))
       = Some (Error ''Canvas context not initialized'')"
proof -
  have s: "demoSession = butlast demoSession @ [Destroy 50]" by (simp add: demoSession_def)
  have g: "list_all gentle demoSession"
    by (simp add: demoSession_def idle_wellBehaved)
  have n: "noLoadAfterDestroy demoSession" by (simp add: demoSession_def)
  from g n s have g': "list_all gentle (butlast demoSession @ [Destroy 50])"
    and n': "noLoadAfterDestroy (butlast demoSession @ [Destroy 50])" by simp_all
  note t = engine_operations_total[OF demoEngine_new g' n', of idleAnimation 60]
  have c: "ctx (engine_run (butlast demoSession) demoEngine) = None"
    by (simp add: demoSession_def demoEngine_def engine_defs idleAnimation_def)
  from t c g n demoEngine_new show ?thesis by simp
qed

end
